theory Spec2Isabelle
  imports Main
begin

section \<open>Data model of all\_user\_commit\<close>

text \<open>
  The commit objects built by \<^verbatim>\<open>getRepositoryCommits\<close> and
  \<^verbatim>\<open>getPullRequestCommits\<close> (\<^verbatim>\<open>CommitSchema\<close>): the field
  \<^verbatim>\<open>type\<close> is one of the two strings "direct" and "pull\_request", the field
  \<^verbatim>\<open>pullRequest\<close> is a number or null.
\<close>

datatype commit_type = direct | pull_request

record commit_parent =
  parent_sha :: string
  parent_url :: string
  parent_html_url :: string

record commit_stats =
  total :: int
  additions :: int
  deletions :: int

record commit_file =
  filename :: string
  file_status :: string
  file_additions :: int
  file_deletions :: int
  changes :: int

record commit =
  sha :: string
  message :: string
  date :: string
  repository :: string
  type :: commit_type
  pullRequest :: "int option"
  author :: string
  url :: string
  parents :: "commit_parent list"
  stats :: commit_stats
  files :: "commit_file list"

text \<open>
  A commit as the API lists it (\<^verbatim>\<open>commit.sha\<close>, \<^verbatim>\<open>commit.commit.message\<close>,
  \<^verbatim>\<open>commit.commit.committer.date\<close>, \<^verbatim>\<open>commit.commit.author.name\<close>,
  \<^verbatim>\<open>commit.html_url\<close>), and the result of \<^verbatim>\<open>getDetailedCommitInfo\<close>.
\<close>

record api_commit =
  api_sha :: string
  api_message :: string
  api_committer_date :: string
  api_author_name :: string
  api_html_url :: string

record commit_details =
  details_parents :: "commit_parent list"
  details_stats :: commit_stats
  details_files :: "commit_file list"

text \<open>The details of a commit when details are disabled or their request failed.\<close>

definition no_details :: commit_details where
  "no_details = \<lparr>details_parents = [],
     details_stats = \<lparr>total = 0, additions = 0, deletions = 0\<rparr>, details_files = []\<rparr>"

text \<open>\<^verbatim>\<open>baseCommit\<close> of \<^verbatim>\<open>getRepositoryCommits\<close>.\<close>

definition baseCommit_direct :: "string \<Rightarrow> string \<Rightarrow> api_commit \<Rightarrow> commit_details \<Rightarrow> commit" where
  "baseCommit_direct owner repo c details =
     \<lparr>sha = api_sha c, message = api_message c, date = api_committer_date c,
      repository = owner @ ''/'' @ repo, type = direct, pullRequest = None,
      author = api_author_name c, url = api_html_url c,
      parents = details_parents details, stats = details_stats details,
      files = details_files details\<rparr>"

text \<open>\<^verbatim>\<open>baseCommit\<close> of \<^verbatim>\<open>getPullRequestCommits\<close>.\<close>

definition baseCommit_pull_request ::
  "string \<Rightarrow> string \<Rightarrow> int \<Rightarrow> api_commit \<Rightarrow> commit_details \<Rightarrow> commit" where
  "baseCommit_pull_request owner repo pullNumber c details =
     \<lparr>sha = api_sha c, message = api_message c, date = api_committer_date c,
      repository = owner @ ''/'' @ repo, type = pull_request, pullRequest = Some pullNumber,
      author = api_author_name c, url = api_html_url c,
      parents = details_parents details, stats = details_stats details,
      files = details_files details\<rparr>"

text \<open>
  An item of the issue search: the fields of a pull request that the engine reads.
\<close>

record pull_request_item =
  id_pr :: int
  number :: int
  repository_url :: string
  title :: string

text \<open>
  A date partition. Dates are day numbers (days since 1970-01-01, UTC): the source parses
  each validated YYYY-MM-DD string with \<^verbatim>\<open>new Date\<close>, moves it with
  \<^verbatim>\<open>setDate(getDate() + n)\<close> and prints it back with
  \<^verbatim>\<open>toISOString().split("T")[0]\<close>; with the process clock in UTC these are
  the day number, adding \<open>n\<close> to it, and the day's string.
\<close>

record partition =
  start :: int
  end' :: int

section \<open>Reconciliation of direct and pull-request commits\<close>

text \<open>
  \<^verbatim>\<open>directCommits.find((c) => c.sha === prCommit.sha)\<close> followed by the in-place
  update of the object found: the first entry with the sha is changed, all others stay.
\<close>

fun update_found :: "string \<Rightarrow> (commit \<Rightarrow> commit) \<Rightarrow> commit list \<Rightarrow> commit list" where
  "update_found s f [] = []"
| "update_found s f (c # cs) = (if sha c = s then f c # cs else c # update_found s f cs)"

definition reclassify_step :: "commit list \<Rightarrow> commit \<Rightarrow> commit list" where
  "reclassify_step directCommits prCommit =
     update_found (sha prCommit)
       (\<lambda>directCommit. directCommit\<lparr>type := pull_request, pullRequest := pullRequest prCommit\<rparr>)
       directCommits"

text \<open>First loop of the reconciliation: update direct commits that are part of PRs.\<close>

fun reclassify :: "commit list \<Rightarrow> commit list \<Rightarrow> commit list" where
  "reclassify directCommits [] = directCommits"
| "reclassify directCommits (prCommit # prCommits) =
     reclassify (reclassify_step directCommits prCommit) prCommits"

definition append_step :: "commit list \<Rightarrow> commit \<Rightarrow> commit list" where
  "append_step directCommits prCommit =
     (if find (\<lambda>c. sha c = sha prCommit) directCommits = None
      then directCommits @ [prCommit] else directCommits)"

text \<open>Second loop: add PR commits that were not found in the direct search.\<close>

fun append_missing :: "commit list \<Rightarrow> commit list \<Rightarrow> commit list" where
  "append_missing directCommits [] = directCommits"
| "append_missing directCommits (prCommit # prCommits) =
     append_missing (append_step directCommits prCommit) prCommits"

definition reconcile :: "commit list \<Rightarrow> commit list \<Rightarrow> commit list" where
  "reconcile directCommits prCommits =
     append_missing (reclassify directCommits prCommits) prCommits"

text \<open>The type of a commit is "pull\_request" exactly when its pull request is set.\<close>

definition type_matches_pullRequest :: "'a commit_scheme \<Rightarrow> bool" where
  "type_matches_pullRequest c = ((type c = pull_request) = (pullRequest c \<noteq> None))"

section \<open>Date partitions\<close>

text \<open>
  \<^verbatim>\<open>createDatePartitions\<close>: the loop runs while \<^verbatim>\<open>current < end\<close>, pushes
  the partition from \<^verbatim>\<open>current\<close> to \<^verbatim>\<open>current + 7\<close> (clamped to
  \<^verbatim>\<open>end\<close>) and moves \<^verbatim>\<open>current\<close> on by 8 days.
\<close>

function createDatePartitions_from :: "int \<Rightarrow> int \<Rightarrow> partition list" where
  "createDatePartitions_from current endDate =
     (if current < endDate then
        (let partitionEnd = current + 7;
             partitionEnd = (if partitionEnd > endDate then endDate else partitionEnd)
         in \<lparr>start = current, end' = partitionEnd\<rparr>
              # createDatePartitions_from (current + 8) endDate)
      else [])"
  by pat_completeness auto
termination
  by (relation "measure (\<lambda>(current, endDate). nat (endDate - current))") auto

definition createDatePartitions :: "int \<Rightarrow> int \<Rightarrow> partition list" where
  "createDatePartitions startDate endDate = createDatePartitions_from startDate endDate"

text \<open>A day lies in one of the partitions (both ends of a partition are inclusive,
  as in the search qualifier \<^verbatim>\<open>created:start..end\<close>).\<close>

definition covered :: "partition list \<Rightarrow> int \<Rightarrow> bool" where
  "covered ps d = list_ex (\<lambda>p. start p \<le> d \<and> d \<le> end' p) ps"

text \<open>
  The date logic of \<^verbatim>\<open>main\<close>: a start date after the end date ends the process
  with the message "Start date must be before end date".
\<close>

datatype cli_error = StartAfterEnd

definition main_date_logic :: "int \<Rightarrow> int \<Rightarrow> cli_error + unit" where
  "main_date_logic startDate endDate =
     (if startDate > endDate then Inl StartAfterEnd else Inr ())"

section \<open>Merging the two pull-request searches\<close>

text \<open>\<^verbatim>\<open>Array.prototype.findIndex\<close>: the first index whose element satisfies the
  predicate, or -1.\<close>

fun findIndex :: "('a \<Rightarrow> bool) \<Rightarrow> 'a list \<Rightarrow> int" where
  "findIndex P [] = - 1"
| "findIndex P (x # xs) =
     (if P x then 0 else (let i = findIndex P xs in if i = - 1 then - 1 else i + 1))"

definition same_pr :: "pull_request_item \<Rightarrow> pull_request_item \<Rightarrow> bool" where
  "same_pr pr p = (number p = number pr \<and> repository_url p = repository_url pr)"

text \<open>The filter that removes duplicates based on PR number and repository.\<close>

definition uniquePRs :: "pull_request_item list \<Rightarrow> pull_request_item list" where
  "uniquePRs allPullRequests =
     map fst (filter (\<lambda>(pr, index). int index = findIndex (same_pr pr) allPullRequests)
       (zip allPullRequests [0..<length allPullRequests]))"

definition merge_searches ::
  "pull_request_item list \<Rightarrow> pull_request_item list \<Rightarrow> pull_request_item list" where
  "merge_searches authorResults userResults = uniquePRs (authorResults @ userResults)"

definition pr_key :: "pull_request_item \<Rightarrow> int \<times> string" where
  "pr_key p = (number p, repository_url p)"

section \<open>The engine: configuration, state and the remote API\<close>

text \<open>
  The class \<^verbatim>\<open>AllUserCommit\<close>. Every operation takes the engine (the fields of
  \<^verbatim>\<open>this\<close> that the operations read or write) and returns it updated, together with
  either the error it throws (\<open>Inl\<close>) or its result (\<open>Inr\<close>). The pagination loops end
  only when the remote side sends a short page, an error, or the budget is reached, so
  they are partial functions: \<open>None\<close> is a loop that never ends.

  A repository as \<^verbatim>\<open>GET /users/{username}/repos\<close> lists it (\<^verbatim>\<open>repo.name\<close>,
  \<^verbatim>\<open>repo.owner.login\<close>, \<^verbatim>\<open>repo.full_name\<close>).
\<close>

record repo =
  name :: string
  owner_login :: string
  full_name :: string

text \<open>
  The error object of a failed request: \<^verbatim>\<open>error.status\<close> (absent for errors that are
  not HTTP errors) and \<^verbatim>\<open>error.message\<close>. A request is either answered with a status
  and data, or rejected with an error.
\<close>

record request_error =
  err_status :: "int option"
  err_message :: string

datatype 'a response = Response int 'a | Rejected request_error

text \<open>
  The query of an issue search: the text built by \<^verbatim>\<open>searchPullRequestsForUser\<close>
  and, for a partition, the qualifier \<^verbatim>\<open>created:start..end\<close>.
\<close>

record search_query =
  q_text :: string
  created :: "partition option"

text \<open>
  The remote API, as the answers of \<^verbatim>\<open>octokit.request\<close> to the requests of the
  engine: user, repositories of a user (user, page, per\_page), commits of a repository
  (owner, repository, author, page, per\_page, since and until), one commit, issue search
  (query, page, per\_page), commits of a pull request. The payloads are taken to have
  the shape the engine expects. The rate limiter only delays the call it schedules, and
  the delays between requests do not change any value, so neither appears.
\<close>

record github =
  get_user :: "string \<Rightarrow> string response"
  list_repos :: "string \<Rightarrow> int \<Rightarrow> int \<Rightarrow> repo list response"
  list_commits :: "string \<Rightarrow> string \<Rightarrow> string \<Rightarrow> int \<Rightarrow> int \<Rightarrow> partition option
     \<Rightarrow> api_commit list response"
  get_commit :: "string \<Rightarrow> string \<Rightarrow> string \<Rightarrow> commit_details response"
  search_issues :: "search_query \<Rightarrow> int \<Rightarrow> int \<Rightarrow> pull_request_item list response"
  list_pull_commits :: "string \<Rightarrow> string \<Rightarrow> int \<Rightarrow> api_commit list response"

text \<open>
  The validated configuration: \<^verbatim>\<open>config.repo\<close> is the comma-separated list of
  repository names, \<^verbatim>\<open>config.start\<close> and \<^verbatim>\<open>config.end\<close> are day numbers.
\<close>

record config =
  searchUser :: string
  org :: "string option"
  repo_filter :: "string option"
  ignoreDateRange :: bool
  config_start :: "int option"
  config_end :: "int option"
  totalRecords :: int
  includeDetails :: bool

text \<open>
  The entries of \<^verbatim>\<open>this.apiCalls\<close> (the route with its parameters; a status of
  \<open>None\<close> is the string "ERROR") and of \<^verbatim>\<open>this.errors\<close> (the operation, the user
  or repository it was about, the pull request if any, and the message).
\<close>

datatype endpoint =
    GET_user string
  | GET_user_repos string
  | GET_repo_commits string string
  | GET_repo_commit string string string
  | GET_search_issues
  | GET_pull_commits string string int

record api_call =
  call_url :: endpoint
  call_status :: "int option"
  call_error :: "string option"

record error_entry =
  operation :: string
  subject :: string
  error_pullRequest :: "int option"
  error :: string

text \<open>
  The commits stored at the end of a run carry the user id. The flag \<^verbatim>\<open>cancelled\<close>
  is set by the interrupt handler only; the operations read it.
\<close>

record reported_commit = commit +
  userId :: string

record engine =
  config :: config
  commits :: "reported_commit list"
  errors :: "error_entry list"
  apiCalls :: "api_call list"
  totalFetched :: int
  cancelled :: bool

text \<open>
  Truthiness of an optional string, \<^verbatim>\<open>String.prototype.split\<close> at one character,
  \<^verbatim>\<open>trim\<close>, \<^verbatim>\<open>Array.prototype.join\<close>, \<^verbatim>\<open>String.prototype.includes\<close>, and
  the array left by \<^verbatim>\<open>xs.splice(start)\<close> (a negative start counts from the end).
\<close>

definition truthy :: "string option \<Rightarrow> bool" where
  "truthy s = (s \<noteq> None \<and> s \<noteq> Some [])"

fun split :: "char \<Rightarrow> string \<Rightarrow> string list" where
  "split c [] = [[]]"
| "split c (x # xs) =
     (if x = c then [] # split c xs
      else (case split c xs of [] \<Rightarrow> [[x]] | y # ys \<Rightarrow> (x # y) # ys))"

definition is_space :: "char \<Rightarrow> bool" where
  "is_space c = (c \<in> set [CHR '' '', CHR 0x09, CHR 0x0A, CHR 0x0B, CHR 0x0C, CHR 0x0D])"

definition trim :: "string \<Rightarrow> string" where
  "trim s = rev (dropWhile is_space (rev (dropWhile is_space s)))"

fun join :: "string \<Rightarrow> string list \<Rightarrow> string" where
  "join sep [] = []"
| "join sep [x] = x"
| "join sep (x # y # ys) = x @ sep @ join sep (y # ys)"

fun starts_with :: "string \<Rightarrow> string \<Rightarrow> bool" where
  "starts_with s [] = True"
| "starts_with [] (p # ps) = False"
| "starts_with (x # xs) (p # ps) = (x = p \<and> starts_with xs ps)"

fun includes_str :: "string \<Rightarrow> string \<Rightarrow> bool" where
  "includes_str [] p = (p = [])"
| "includes_str (x # xs) p = (starts_with (x # xs) p \<or> includes_str xs p)"

definition splice :: "int \<Rightarrow> 'a list \<Rightarrow> 'a list" where
  "splice start_index xs =
     take (nat (if start_index < 0 then max (int (length xs) + start_index) 0
                else min start_index (int (length xs)))) xs"

definition MAX_SAFE_INTEGER :: int where
  "MAX_SAFE_INTEGER = 9007199254740991"

definition checkTotalRecordsLimit :: "engine \<Rightarrow> bool" where
  "checkTotalRecordsLimit st =
     (totalRecords (config st) > 0 \<and> totalFetched st \<ge> totalRecords (config st))"

definition getRemainingRecords :: "engine \<Rightarrow> int" where
  "getRemainingRecords st =
     (if totalRecords (config st) = 0 then MAX_SAFE_INTEGER
      else max 0 (totalRecords (config st) - totalFetched st))"

text \<open>
  \<^verbatim>\<open>makeRequest\<close> logs the call and returns the data. A response whose status is not
  200 fails \<^verbatim>\<open>expect(response.status).toBe(200)\<close> inside the same \<^verbatim>\<open>try\<close>, so it
  is logged a second time as an error and thrown; a rejected request is logged with its
  status and thrown as it is.
\<close>

definition expect_failed :: request_error where
  "expect_failed = \<lparr>err_status = None, err_message = ''expect(received).toBe(expected)''\<rparr>"

definition status_or_ERROR :: "request_error \<Rightarrow> int option" where
  "status_or_ERROR e = (if err_status e = Some 0 then None else err_status e)"

definition makeRequest :: "engine \<Rightarrow> endpoint \<Rightarrow> 'a response \<Rightarrow> engine \<times> (request_error + 'a)" where
  "makeRequest st url_text r =
     (case r of
        Response status_code data \<Rightarrow>
          (let st1 = st\<lparr>apiCalls := apiCalls st @
                 [\<lparr>call_url = url_text, call_status = Some status_code, call_error = None\<rparr>]\<rparr>
           in if status_code = 200 then (st1, Inr data)
              else (st1\<lparr>apiCalls := apiCalls st1 @
                      [\<lparr>call_url = url_text, call_status = None,
                        call_error = Some (err_message expect_failed)\<rparr>]\<rparr>,
                    Inl expect_failed))
      | Rejected e \<Rightarrow>
          (st\<lparr>apiCalls := apiCalls st @
               [\<lparr>call_url = url_text, call_status = status_or_ERROR e,
                 call_error = Some (err_message e)\<rparr>]\<rparr>,
           Inl e))"

definition validateUser :: "github \<Rightarrow> engine \<Rightarrow> string \<Rightarrow> engine \<times> (request_error + string)" where
  "validateUser gh st username =
     (case makeRequest st (GET_user username) (get_user gh username) of
        (st1, Inr login) \<Rightarrow>
          if login = username then (st1, Inr login)
          else (st1, Inl \<lparr>err_status = None,
                  err_message = ''Failed to validate user: '' @ err_message expect_failed\<rparr>)
      | (st1, Inl e) \<Rightarrow>
          if err_status e = Some 404
          then (st1, Inl \<lparr>err_status = None,
                  err_message = ''User '' @ [CHR 0x27] @ username @ [CHR 0x27] @ '' not found''\<rparr>)
          else (st1, Inl \<lparr>err_status = None,
                  err_message = ''Failed to validate user: '' @ err_message e\<rparr>))"

partial_function (option) getUserRepositories_loop ::
  "github \<Rightarrow> string \<Rightarrow> engine \<Rightarrow> repo list \<Rightarrow> int
     \<Rightarrow> (engine \<times> (request_error + repo list)) option" where
  "getUserRepositories_loop gh username st repos page =
     (if \<not> cancelled st \<and> \<not> checkTotalRecordsLimit st then
        (let remainingRecords = getRemainingRecords st in
         case makeRequest st (GET_user_repos username)
                (list_repos gh username page (min 100 remainingRecords)) of
           (st1, Inl e) \<Rightarrow>
             Some (st1\<lparr>errors := errors st1 @
                     [\<lparr>operation = ''getUserRepositories'', subject = username,
                       error_pullRequest = None, error = err_message e\<rparr>]\<rparr>, Inr repos)
         | (st1, Inr response) \<Rightarrow>
             if length response = 0 then Some (st1, Inr repos)
             else
               (let repos1 = repos @ response;
                    st2 = st1\<lparr>totalFetched := totalFetched st1 + int (length response)\<rparr>
                in if length response < 100 then Some (st2, Inr repos1)
                   else if checkTotalRecordsLimit st2 then
                     (let excess = totalFetched st2 - totalRecords (config st2)
                      in if excess > 0
                         then Some (st2\<lparr>totalFetched := totalRecords (config st2)\<rparr>,
                                    Inr (splice (- excess) repos1))
                         else Some (st2, Inr repos1))
                   else getUserRepositories_loop gh username st2 repos1 (page + 1)))
      else Some (st, Inr repos))"

declare getUserRepositories_loop.simps [code]

definition getUserRepositories ::
  "github \<Rightarrow> engine \<Rightarrow> string \<Rightarrow> (engine \<times> (request_error + repo list)) option" where
  "getUserRepositories gh st username = getUserRepositories_loop gh username st [] 1"


text \<open>
  \<^verbatim>\<open>getDetailedCommitInfo\<close> catches every error and then returns empty details.
  The callbacks of \<^verbatim>\<open>Promise.all(response.map(...))\<close> are run in the order of the
  list.
\<close>

definition getDetailedCommitInfo ::
  "github \<Rightarrow> engine \<Rightarrow> string \<Rightarrow> string \<Rightarrow> string \<Rightarrow> engine \<times> commit_details" where
  "getDetailedCommitInfo gh st owner repo commit_sha =
     (case makeRequest st (GET_repo_commit owner repo commit_sha)
             (get_commit gh owner repo commit_sha) of
        (st1, Inr details) \<Rightarrow> (st1, details)
      | (st1, Inl e) \<Rightarrow> (st1, no_details))"

definition details_if_enabled ::
  "github \<Rightarrow> engine \<Rightarrow> string \<Rightarrow> string \<Rightarrow> string \<Rightarrow> engine \<times> commit_details" where
  "details_if_enabled gh st owner repo commit_sha =
     (if includeDetails (config st) then getDetailedCommitInfo gh st owner repo commit_sha
      else (st, no_details))"

fun formatted :: "github \<Rightarrow> engine \<Rightarrow> string \<Rightarrow> string \<Rightarrow> api_commit list \<Rightarrow> engine \<times> commit list" where
  "formatted gh st owner repo [] = (st, [])"
| "formatted gh st owner repo (c # cs) =
     (case details_if_enabled gh st owner repo (api_sha c) of
        (st1, details) \<Rightarrow>
          (case formatted gh st1 owner repo cs of
             (st2, rest) \<Rightarrow> (st2, baseCommit_direct owner repo c details # rest)))"

fun enhancedCommits ::
  "github \<Rightarrow> engine \<Rightarrow> string \<Rightarrow> string \<Rightarrow> int \<Rightarrow> api_commit list \<Rightarrow> engine \<times> commit list" where
  "enhancedCommits gh st owner repo pullNumber [] = (st, [])"
| "enhancedCommits gh st owner repo pullNumber (c # cs) =
     (case details_if_enabled gh st owner repo (api_sha c) of
        (st1, details) \<Rightarrow>
          (case enhancedCommits gh st1 owner repo pullNumber cs of
             (st2, rest) \<Rightarrow> (st2, baseCommit_pull_request owner repo pullNumber c details # rest)))"

partial_function (option) getRepositoryCommits_loop ::
  "github \<Rightarrow> string \<Rightarrow> string \<Rightarrow> string \<Rightarrow> partition option \<Rightarrow> engine \<Rightarrow> commit list \<Rightarrow> int
     \<Rightarrow> (engine \<times> (request_error + commit list)) option" where
  "getRepositoryCommits_loop gh owner repo author_name dateRange st commits_acc page =
     (if \<not> cancelled st \<and> \<not> checkTotalRecordsLimit st then
        (let remainingRecords = getRemainingRecords st;
             since_until = (if dateRange \<noteq> None \<and> \<not> ignoreDateRange (config st)
                            then dateRange else None)
         in case makeRequest st (GET_repo_commits owner repo)
                (list_commits gh owner repo author_name page (min 100 remainingRecords)
                   since_until) of
           (st1, Inl e) \<Rightarrow>
             if err_status e = Some 409 \<or> err_status e = Some 404 then Some (st1, Inr commits_acc)
             else Some (st1\<lparr>errors := errors st1 @
                     [\<lparr>operation = ''getRepositoryCommits'', subject = owner @ ''/'' @ repo,
                       error_pullRequest = None, error = err_message e\<rparr>]\<rparr>, Inr commits_acc)
         | (st1, Inr response) \<Rightarrow>
             if length response = 0 then Some (st1, Inr commits_acc)
             else
               (case formatted gh st1 owner repo response of
                  (st2, formatted_commits) \<Rightarrow>
                    (let commits1 = commits_acc @ formatted_commits;
                         st3 = st2\<lparr>totalFetched := totalFetched st2 + int (length formatted_commits)\<rparr>
                     in if length response < 100 then Some (st3, Inr commits1)
                        else if checkTotalRecordsLimit st3 then
                          (let excess = totalFetched st3 - totalRecords (config st3)
                           in if excess > 0
                              then Some (st3\<lparr>totalFetched := totalRecords (config st3)\<rparr>,
                                         Inr (splice (- excess) commits1))
                              else Some (st3, Inr commits1))
                        else getRepositoryCommits_loop gh owner repo author_name dateRange
                               st3 commits1 (page + 1))))
      else Some (st, Inr commits_acc))"

declare getRepositoryCommits_loop.simps [code]

definition getRepositoryCommits ::
  "github \<Rightarrow> engine \<Rightarrow> string \<Rightarrow> string \<Rightarrow> string \<Rightarrow> partition option
     \<Rightarrow> (engine \<times> (request_error + commit list)) option" where
  "getRepositoryCommits gh st owner repo author_name dateRange =
     getRepositoryCommits_loop gh owner repo author_name dateRange st [] 1"

text \<open>The filter of \<^verbatim>\<open>searchUserRepositoryCommits\<close> and its loop over the
  repositories.\<close>

definition repo_selected :: "config \<Rightarrow> repo \<Rightarrow> bool" where
  "repo_selected cfg r =
     (if truthy (org cfg) \<and> Some (owner_login r) \<noteq> org cfg then False
      else if truthy (repo_filter cfg)
           then name r \<in> set (map trim (split (CHR '','') (the (repo_filter cfg))))
           else True)"

fun repositories_loop ::
  "github \<Rightarrow> string \<Rightarrow> partition option \<Rightarrow> engine \<Rightarrow> commit list \<Rightarrow> repo list
     \<Rightarrow> (engine \<times> (request_error + commit list)) option" where
  "repositories_loop gh user dateRange st allCommits [] = Some (st, Inr allCommits)"
| "repositories_loop gh user dateRange st allCommits (r # rs) =
     (if cancelled st \<or> checkTotalRecordsLimit st then Some (st, Inr allCommits)
      else
        (case getRepositoryCommits gh st (owner_login r) (name r) user dateRange of
           None \<Rightarrow> None
         | Some (st1, Inl e) \<Rightarrow> Some (st1, Inl e)
         | Some (st1, Inr repoCommits) \<Rightarrow>
             (let allCommits1 = allCommits @ repoCommits
              in if checkTotalRecordsLimit st1 then Some (st1, Inr allCommits1)
                 else repositories_loop gh user dateRange st1 allCommits1 rs)))"

definition searchUserRepositoryCommits ::
  "github \<Rightarrow> engine \<Rightarrow> string \<Rightarrow> partition option
     \<Rightarrow> (engine \<times> (request_error + commit list)) option" where
  "searchUserRepositoryCommits gh st user dateRange =
     (case getUserRepositories gh st user of
        None \<Rightarrow> None
      | Some (st1, Inl e) \<Rightarrow> Some (st1, Inl e)
      | Some (st1, Inr repos) \<Rightarrow>
          repositories_loop gh user dateRange st1 []
            (filter (repo_selected (config st1)) repos))"

text \<open>
  \<^verbatim>\<open>searchPullRequestsForQuery\<close> stops quietly at the error 422 "Only the first
  1000 ..." and throws every other error.
\<close>

partial_function (option) searchPullRequestsForQuery_loop ::
  "github \<Rightarrow> search_query \<Rightarrow> engine \<Rightarrow> pull_request_item list \<Rightarrow> int
     \<Rightarrow> (engine \<times> (request_error + pull_request_item list)) option" where
  "searchPullRequestsForQuery_loop gh query st pullRequests page =
     (if \<not> cancelled st \<and> \<not> checkTotalRecordsLimit st then
        (let remainingRecords = getRemainingRecords st in
         case makeRequest st GET_search_issues
                (search_issues gh query page (min 100 remainingRecords)) of
           (st1, Inl e) \<Rightarrow>
             if err_status e = Some 422 \<and> includes_str (err_message e) ''Only the first 1000''
             then Some (st1, Inr pullRequests)
             else Some (st1, Inl e)
         | (st1, Inr response_items) \<Rightarrow>
             if length response_items = 0 then Some (st1, Inr pullRequests)
             else
               (let pullRequests1 = pullRequests @ response_items
                in if length response_items < 100 then Some (st1, Inr pullRequests1)
                   else if checkTotalRecordsLimit st1 then
                     (let excess = int (length pullRequests1) - getRemainingRecords st1
                      in if excess > 0 then Some (st1, Inr (splice (- excess) pullRequests1))
                         else Some (st1, Inr pullRequests1))
                   else searchPullRequestsForQuery_loop gh query st1 pullRequests1 (page + 1)))
      else Some (st, Inr pullRequests))"

declare searchPullRequestsForQuery_loop.simps [code]

definition searchPullRequestsForQuery ::
  "github \<Rightarrow> engine \<Rightarrow> search_query
     \<Rightarrow> (engine \<times> (request_error + pull_request_item list)) option" where
  "searchPullRequestsForQuery gh st query = searchPullRequestsForQuery_loop gh query st [] 1"

fun partitions_loop ::
  "github \<Rightarrow> string \<Rightarrow> engine \<Rightarrow> pull_request_item list \<Rightarrow> partition list
     \<Rightarrow> (engine \<times> (request_error + pull_request_item list)) option" where
  "partitions_loop gh query st allPullRequests [] = Some (st, Inr allPullRequests)"
| "partitions_loop gh query st allPullRequests (p # ps) =
     (if cancelled st \<or> checkTotalRecordsLimit st then Some (st, Inr allPullRequests)
      else
        (case searchPullRequestsForQuery gh st \<lparr>q_text = query, created = Some p\<rparr> of
           None \<Rightarrow> None
         | Some (st1, Inl e) \<Rightarrow> Some (st1, Inl e)
         | Some (st1, Inr partitionResults) \<Rightarrow>
             (let all1 = allPullRequests @ partitionResults
              in if checkTotalRecordsLimit st1 then
                   (let excess = int (length all1) - getRemainingRecords st1
                    in if excess > 0 then Some (st1, Inr (splice (- excess) all1))
                       else Some (st1, Inr all1))
                 else partitions_loop gh query st1 all1 ps)))"

definition search_query_text :: "config \<Rightarrow> string \<Rightarrow> string" where
  "search_query_text cfg baseQuery =
     (let query = baseQuery @ '' is:pr'';
          query = (if truthy (org cfg) then query @ '' org:'' @ the (org cfg) else query)
      in if truthy (repo_filter cfg) then
           (let repoNames = map trim (split (CHR '','') (the (repo_filter cfg)));
                repoQueries =
                  (if truthy (org cfg)
                   then map (\<lambda>n. ''repo:'' @ the (org cfg) @ ''/'' @ n) repoNames
                   else map (\<lambda>n. ''repo:*/'' @ n) repoNames)
            in baseQuery @ '' is:pr ('' @ join '' OR '' repoQueries @ '')'')
         else query)"

definition searchPullRequestsForUser ::
  "github \<Rightarrow> engine \<Rightarrow> string \<Rightarrow> partition option
     \<Rightarrow> (engine \<times> (request_error + pull_request_item list)) option" where
  "searchPullRequestsForUser gh st baseQuery dateRange =
     (let query = search_query_text (config st) baseQuery
      in if dateRange \<noteq> None \<and> \<not> ignoreDateRange (config st)
         then partitions_loop gh query st []
                (createDatePartitions (start (the dateRange)) (end' (the dateRange)))
         else searchPullRequestsForQuery gh st \<lparr>q_text = query, created = None\<rparr>)"

text \<open>
  The two searches of \<^verbatim>\<open>searchPullRequestsWithPartitioning\<close> are awaited together;
  they change the engine only by their log entries, and here the author search runs first.
\<close>

definition searchPullRequestsWithPartitioning ::
  "github \<Rightarrow> engine \<Rightarrow> string \<Rightarrow> partition option
     \<Rightarrow> (engine \<times> (request_error + pull_request_item list)) option" where
  "searchPullRequestsWithPartitioning gh st user dateRange =
     (case searchPullRequestsForUser gh st (''author:'' @ user) dateRange of
        None \<Rightarrow> None
      | Some (st1, Inl e) \<Rightarrow> Some (st1, Inl e)
      | Some (st1, Inr authorResults) \<Rightarrow>
          (case searchPullRequestsForUser gh st1 (''user:'' @ user) dateRange of
             None \<Rightarrow> None
           | Some (st2, Inl e) \<Rightarrow> Some (st2, Inl e)
           | Some (st2, Inr userResults) \<Rightarrow>
               (let unique = merge_searches authorResults userResults
                in if totalRecords (config st2) > 0 then
                     (let remainingRecords = getRemainingRecords st2;
                          unique1 = (if int (length unique) > remainingRecords
                                     then splice remainingRecords unique else unique)
                      in Some (st2\<lparr>totalFetched := totalFetched st2 + int (length unique1)\<rparr>,
                               Inr unique1))
                   else Some (st2, Inr unique))))"

definition getPullRequestCommits ::
  "github \<Rightarrow> engine \<Rightarrow> string \<Rightarrow> string \<Rightarrow> int \<Rightarrow> engine \<times> (request_error + commit list)" where
  "getPullRequestCommits gh st owner repo pullNumber =
     (case makeRequest st (GET_pull_commits owner repo pullNumber)
             (list_pull_commits gh owner repo pullNumber) of
        (st1, Inl e) \<Rightarrow>
          (st1\<lparr>errors := errors st1 @
              [\<lparr>operation = ''getPullRequestCommits'', subject = owner @ ''/'' @ repo,
                error_pullRequest = Some pullNumber, error = err_message e\<rparr>]\<rparr>, Inr [])
      | (st1, Inr listed) \<Rightarrow>
          (case enhancedCommits gh st1 owner repo pullNumber listed of
             (st2, enhanced) \<Rightarrow> (st2, Inr enhanced)))"


text \<open>
  \<^verbatim>\<open>pr.repository_url.split("/").slice(-2)\<close>, destructured into owner and
  repository; a missing element is \<^verbatim>\<open>undefined\<close>.
\<close>

definition owner_and_repo :: "string \<Rightarrow> string \<times> string" where
  "owner_and_repo repository_url_text =
     (let parts = split (CHR ''/'') repository_url_text;
          last_two = drop (length parts - 2) parts
      in case last_two of
           a # b # rest \<Rightarrow> (a, b)
         | [a] \<Rightarrow> (a, ''undefined'')
         | [] \<Rightarrow> (''undefined'', ''undefined''))"

fun pull_requests_loop ::
  "github \<Rightarrow> engine \<Rightarrow> commit list \<Rightarrow> pull_request_item list
     \<Rightarrow> engine \<times> (request_error + commit list)" where
  "pull_requests_loop gh st allPrCommits [] = (st, Inr allPrCommits)"
| "pull_requests_loop gh st allPrCommits (pr # prs) =
     (if cancelled st \<or> checkTotalRecordsLimit st then (st, Inr allPrCommits)
      else
        (case owner_and_repo (repository_url pr) of
           (owner, repo) \<Rightarrow>
             (case getPullRequestCommits gh st owner repo (number pr) of
                (st1, Inl e) \<Rightarrow> (st1, Inl e)
              | (st1, Inr pr_commits) \<Rightarrow>
                  pull_requests_loop gh st1 (allPrCommits @ pr_commits) prs)))"

definition store_commits :: "engine \<Rightarrow> commit list \<Rightarrow> engine" where
  "store_commits st directCommits =
     st\<lparr>commits := map (\<lambda>v. commit.extend v (reported_commit.fields (searchUser (config st))))
                      directCommits\<rparr>"

text \<open>
  \<^verbatim>\<open>analyzeUserCommits\<close>: validation of the user, the repository walk, the search
  for pull requests, the commits of each pull request, the reconciliation, and the
  storing of the commits with the user id.
\<close>

definition analyzeUserCommits ::
  "github \<Rightarrow> engine \<Rightarrow> (engine \<times> (request_error + unit)) option" where
  "analyzeUserCommits gh st =
     (case validateUser gh st (searchUser (config st)) of
        (st0, Inl e) \<Rightarrow> Some (st0, Inl e)
      | (st0, Inr validated) \<Rightarrow>
          (let dateRange =
                 (if \<not> ignoreDateRange (config st0) \<and> config_start (config st0) \<noteq> None
                       \<and> config_end (config st0) \<noteq> None
                  then Some \<lparr>start = the (config_start (config st0)),
                              end' = the (config_end (config st0))\<rparr>
                  else None)
           in case searchUserRepositoryCommits gh st0 (searchUser (config st0)) dateRange of
                None \<Rightarrow> None
              | Some (st1, Inl e) \<Rightarrow> Some (st1, Inl e)
              | Some (st1, Inr directCommits) \<Rightarrow>
                  if \<not> cancelled st1 \<and> \<not> checkTotalRecordsLimit st1 then
                    (case searchPullRequestsWithPartitioning gh st1 (searchUser (config st1))
                            dateRange of
                       None \<Rightarrow> None
                     | Some (st2, Inl e) \<Rightarrow> Some (st2, Inl e)
                     | Some (st2, Inr pullRequests) \<Rightarrow>
                         if length pullRequests > 0 \<and> \<not> cancelled st2
                              \<and> \<not> checkTotalRecordsLimit st2 then
                           (case pull_requests_loop gh st2 [] pullRequests of
                              (st3, Inl e) \<Rightarrow> Some (st3, Inl e)
                            | (st3, Inr prCommits) \<Rightarrow>
                                Some (store_commits st3 (reconcile directCommits prCommits), Inr ()))
                         else Some (store_commits st2 directCommits, Inr ()))
                  else Some (store_commits st1 directCommits, Inr ())))"

definition initial_engine :: "config \<Rightarrow> engine" where
  "initial_engine cfg = \<lparr>config = cfg, commits = [], errors = [], apiCalls = [],
     totalFetched = 0, cancelled = False\<rparr>"

section \<open>The request executor of GitHubDataEngine\<close>

text \<open>
  \<^verbatim>\<open>GitHubDataEngine.makeRequest\<close> tries a request up to \<^verbatim>\<open>maxRetries\<close>
  times. The error of a failed try carries its HTTP status (if any) and the rate-limit
  headers of the response; \<open>now\<close> is the clock (milliseconds) read when the error of a try
  is handled. The result comes with the seconds slept, in order, and the number of tries
  made. The loop counter \<^verbatim>\<open>retries\<close> is raised by one on every path that goes on, so
  the try number is the counter.
\<close>

record engine_error =
  http_status :: "int option"
  ratelimit_remaining :: "string option"
  ratelimit_reset :: int
  error_text :: string

datatype 'a attempt = Resolved 'a | Failed engine_error

datatype 'a request_result = Returned 'a | Thrown engine_error | Returned_undefined

definition maxRetries :: nat where
  "maxRetries = 3"

definition ceil_seconds :: "int \<Rightarrow> int" where
  "ceil_seconds ms = - ((- ms) div 1000)"

definition rate_limited :: "engine_error \<Rightarrow> bool" where
  "rate_limited e = (http_status e = Some 403 \<and> ratelimit_remaining e = Some ''0'')"

definition status_at_least_400 :: "engine_error \<Rightarrow> bool" where
  "status_at_least_400 e = (case http_status e of Some s \<Rightarrow> s \<ge> 400 | None \<Rightarrow> False)"

function request_attempts ::
  "(nat \<Rightarrow> 'a attempt) \<Rightarrow> (nat \<Rightarrow> int) \<Rightarrow> nat \<Rightarrow> int list \<Rightarrow> 'a request_result \<times> int list \<times> nat" where
  "request_attempts octokit_request now retries slept =
     (if retries < maxRetries then
        (case octokit_request retries of
           Resolved data \<Rightarrow> (Returned data, slept, retries + 1)
         | Failed e \<Rightarrow>
             if rate_limited e then
               (let resetTime = ratelimit_reset e * 1000;
                    waitTime = max (resetTime - now retries) 0 + 1000
                in request_attempts octokit_request now (retries + 1)
                     (slept @ [ceil_seconds waitTime]))
             else if status_at_least_400 e \<and> retries < maxRetries - 1 then
               request_attempts octokit_request now (retries + 1) (slept @ [2 ^ retries])
             else (Thrown e, slept, retries + 1))
      else (Returned_undefined, slept, retries))"
  by pat_completeness auto
termination
  by (relation "measure (\<lambda>(octokit_request, now, retries, slept). maxRetries - retries)") auto

declare request_attempts.simps [simp del]

definition dataEngine_makeRequest ::
  "nat \<Rightarrow> int \<Rightarrow> (nat \<Rightarrow> 'a attempt) \<Rightarrow> (nat \<Rightarrow> int)
     \<Rightarrow> nat \<times> 'a request_result \<times> int list \<times> nat" where
  "dataEngine_makeRequest apiCallCount delay_seconds octokit_request now =
     (let apiCallCount1 = apiCallCount + 1
      in (apiCallCount1,
          request_attempts octokit_request now 0
            (if apiCallCount1 > 1 then [delay_seconds] else [])))"

section \<open>Auxiliary notions and example data\<close>

text \<open>The index of the first entry of a collection that carries its sha.\<close>

definition first_with_sha :: "commit list \<Rightarrow> nat \<Rightarrow> bool" where
  "first_with_sha cs i = (i < length cs \<and> (\<forall>j<i. sha (cs ! j) \<noteq> sha (cs ! i)))"

text \<open>An index survives the duplicate filter when no earlier entry has its number and
  repository.\<close>

definition keeps :: "pull_request_item list \<Rightarrow> nat \<Rightarrow> bool" where
  "keeps xs i = (\<forall>j<i. pr_key (xs ! j) \<noteq> pr_key (xs ! i))"

text \<open>A listed commit with a given sha, and a search item with a given id, number and
  repository URL, for the concrete cases below.\<close>

definition listed_commit :: "string \<Rightarrow> api_commit" where
  "listed_commit s = \<lparr>api_sha = s, api_message = ''msg'', api_committer_date = ''2024-01-05T00:00:00Z'',
     api_author_name = ''dev'', api_html_url = ''https://github.com/commit/'' @ s\<rparr>"

definition pr_item :: "int \<Rightarrow> int \<Rightarrow> string \<Rightarrow> pull_request_item" where
  "pr_item i n u = \<lparr>id_pr = i, number = n, repository_url = u, title = ''pr''\<rparr>"

text \<open>What \<^verbatim>\<open>makeRequest\<close> hands to its caller for a response, the fields of the
  engine that the loops read, the two shapes in which commits are built, and the size of
  the collection that a run stores.\<close>

definition request_outcome :: "'a response \<Rightarrow> request_error + 'a" where
  "request_outcome r =
     (case r of Response status_code data \<Rightarrow> if status_code = 200 then Inr data else Inl expect_failed
      | Rejected e \<Rightarrow> Inl e)"

definition same_control :: "engine \<Rightarrow> engine \<Rightarrow> bool" where
  "same_control st st' =
     (config st' = config st \<and> totalFetched st' = totalFetched st \<and> cancelled st' = cancelled st
      \<and> commits st' = commits st)"

definition direct_form :: "commit \<Rightarrow> bool" where
  "direct_form c = (type c = direct \<and> pullRequest c = None)"

definition pull_request_form :: "commit \<Rightarrow> bool" where
  "pull_request_form c = (type c = pull_request \<and> pullRequest c \<noteq> None)"

definition final_collection_size :: "github \<Rightarrow> config \<Rightarrow> nat option" where
  "final_collection_size gh cfg =
     (case analyzeUserCommits gh (initial_engine cfg) of
        Some (st, Inr done) \<Rightarrow> Some (length (commits st))
      | Some (st, Inl e) \<Rightarrow> None
      | None \<Rightarrow> None)"

text \<open>
  A remote side for the concrete runs: one repository \<^verbatim>\<open>o/r\<close> with ten commits of
  the user, one pull request found by the author search, whose listing has 63 commits of
  its own; and a remote side that rejects every request with a given error.
\<close>

definition listed :: "char \<Rightarrow> nat \<Rightarrow> api_commit list" where
  "listed c n = map (\<lambda>i. listed_commit (replicate (Suc i) c)) [0..<n]"

definition example_github :: github where
  "example_github = \<lparr>
     get_user = (\<lambda>u. Response 200 u),
     list_repos = (\<lambda>u page per_page. Response 200
        (if page = 1 then [\<lparr>name = ''r'', owner_login = ''o'', full_name = ''o/r''\<rparr>] else [])),
     list_commits = (\<lambda>owner repo a page per_page range. Response 200
        (if page = 1 then listed (CHR ''d'') 10 else [])),
     get_commit = (\<lambda>owner repo s. Response 200 no_details),
     search_issues = (\<lambda>query page per_page. Response 200
        (if page = 1 \<and> q_text query = ''author:u is:pr''
         then [pr_item 1 1 ''https://api.github.com/repos/o/r''] else [])),
     list_pull_commits = (\<lambda>owner repo n. Response 200 (listed (CHR ''p'') 63))\<rparr>"

definition example_config :: config where
  "example_config = \<lparr>searchUser = ''u'', org = None, repo_filter = None, ignoreDateRange = True,
     config_start = None, config_end = None, totalRecords = 50, includeDetails = True\<rparr>"

definition failing_github :: "request_error \<Rightarrow> github" where
  "failing_github e = \<lparr>
     get_user = (\<lambda>u. Rejected e),
     list_repos = (\<lambda>u page per_page. Rejected e),
     list_commits = (\<lambda>owner repo a page per_page range. Rejected e),
     get_commit = (\<lambda>owner repo s. Rejected e),
     search_issues = (\<lambda>query page per_page. Rejected e),
     list_pull_commits = (\<lambda>owner repo n. Rejected e)\<rparr>"

definition empty_repository_error :: request_error where
  "empty_repository_error = \<lparr>err_status = Some 409, err_message = ''Git Repository is empty.''\<rparr>"

definition internal_server_error :: request_error where
  "internal_server_error = \<lparr>err_status = Some 500, err_message = ''Server Error''\<rparr>"

definition quota_error :: "int \<Rightarrow> engine_error" where
  "quota_error reset = \<lparr>http_status = Some 403, ratelimit_remaining = Some ''0'',
     ratelimit_reset = reset, error_text = ''API rate limit exceeded''\<rparr>"

definition server_error :: "int \<Rightarrow> engine_error" where
  "server_error s = \<lparr>http_status = Some s, ratelimit_remaining = None,
     ratelimit_reset = 0, error_text = ''Server Error''\<rparr>"

section \<open>Properties of the reconciliation\<close>

lemma update_found_length[simp]: "length (update_found s f cs) = length cs"
  by (induction cs) auto

lemma update_found_map_sha: "(\<And>c. sha (f c) = sha c) \<Longrightarrow> map sha (update_found s f cs) = map sha cs"
  by (induction cs) auto

lemma reclassify_step_map_sha[simp]: "map sha (reclassify_step ds p) = map sha ds"
  unfolding reclassify_step_def by (rule update_found_map_sha) simp

lemma reclassify_map_sha[simp]: "map sha (reclassify ds ps) = map sha ds"
  by (induction ps arbitrary: ds) auto

lemma reclassify_length[simp]: "length (reclassify ds ps) = length ds"
  using reclassify_map_sha[of ds ps] by (metis length_map)

lemma reclassify_step_length[simp]: "length (reclassify_step ds p) = length ds"
  unfolding reclassify_step_def by simp

lemma update_found_nth:
  "i < length cs \<Longrightarrow>
   update_found s f cs ! i =
     (if sha (cs ! i) = s \<and> (\<forall>j<i. sha (cs ! j) \<noteq> s) then f (cs ! i) else cs ! i)"
proof (induction cs arbitrary: i)
  case Nil
  then show ?case by simp
next
  case (Cons c cs)
  show ?case
  proof (cases i)
    case 0
    then show ?thesis by simp
  next
    case (Suc k)
    with Cons.prems have k: "k < length cs" by simp
    show ?thesis
    proof (cases "sha c = s")
      case True
      then show ?thesis using Suc by auto
    next
      case False
      have "(\<forall>j<Suc k. sha ((c # cs) ! j) \<noteq> s) = (\<forall>j<k. sha (cs ! j) \<noteq> s)"
        using False by (auto simp: less_Suc_eq_0_disj)
      then show ?thesis using False Suc Cons.IH[OF k] by auto
    qed
  qed
qed

lemma first_with_sha_map: "map sha cs' = map sha cs \<Longrightarrow> first_with_sha cs' i = first_with_sha cs i"
  unfolding first_with_sha_def
  by (metis (no_types, lifting) length_map nth_map order.strict_trans)

lemma reclassify_step_nth:
  assumes "first_with_sha ds i"
  shows "reclassify_step ds p ! i =
     (if sha p = sha (ds ! i) then (ds ! i)\<lparr>type := pull_request, pullRequest := pullRequest p\<rparr> else ds ! i)"
  using assms unfolding first_with_sha_def reclassify_step_def
  by (auto simp: update_found_nth)

lemma reclassify_nth:
  assumes "first_with_sha ds i"
  shows "reclassify ds ps ! i =
     (case filter (\<lambda>p. sha p = sha (ds ! i)) ps of
        [] \<Rightarrow> ds ! i
      | q # qs \<Rightarrow> (ds ! i)\<lparr>type := pull_request, pullRequest := pullRequest (last (q # qs))\<rparr>)"
  using assms
proof (induction ps arbitrary: ds)
  case Nil
  then show ?case by simp
next
  case (Cons p ps)
  let ?ds' = "reclassify_step ds p"
  have f': "first_with_sha ?ds' i"
    using Cons.prems first_with_sha_map[of ?ds' ds i] by simp
  have i: "i < length ds" using Cons.prems by (simp add: first_with_sha_def)
  have s: "sha (?ds' ! i) = sha (ds ! i)"
    using reclassify_step_map_sha[of ds p] i by (metis length_map nth_map)
  show ?case
    using Cons.IH[OF f'] s reclassify_step_nth[OF Cons.prems, of p]
    by (auto split: list.splits)
qed

lemma append_step_nth: "i < length ds \<Longrightarrow> append_step ds p ! i = ds ! i"
  by (simp add: append_step_def nth_append)

lemma append_step_length: "length ds \<le> length (append_step ds p)"
  by (simp add: append_step_def)

lemma append_missing_nth: "i < length ds \<Longrightarrow> append_missing ds ps ! i = ds ! i"
proof (induction ps arbitrary: ds)
  case Nil
  then show ?case by simp
next
  case (Cons p ps)
  have "i < length (append_step ds p)"
    using Cons.prems append_step_length[of ds p] by simp
  then show ?case using Cons by (simp add: append_step_nth)
qed

lemma append_step_filter:
  "s \<in> sha ` set ds \<Longrightarrow>
   filter (\<lambda>c. sha c = s) (append_step ds p) = filter (\<lambda>c. sha c = s) ds"
  by (auto simp: append_step_def find_None_iff)

lemma append_step_sha_mono: "s \<in> sha ` set ds \<Longrightarrow> s \<in> sha ` set (append_step ds p)"
  by (auto simp: append_step_def)

lemma append_missing_filter:
  "s \<in> sha ` set ds \<Longrightarrow>
   filter (\<lambda>c. sha c = s) (append_missing ds ps) = filter (\<lambda>c. sha c = s) ds"
  by (induction ps arbitrary: ds) (simp_all add: append_step_filter append_step_sha_mono)

lemma length_filter_sha:
  "length (filter (\<lambda>c. sha c = s) cs) = length (filter (\<lambda>x. x = s) (map sha cs))"
  by (induction cs) auto

lemma reconcile_nth_first:
  assumes "first_with_sha ds i" and "sha (ds ! i) \<in> set (map sha ps)"
  shows "reconcile ds ps ! i = (ds ! i)\<lparr>type := pull_request,
           pullRequest := pullRequest (last (filter (\<lambda>p. sha p = sha (ds ! i)) ps))\<rparr>"
proof -
  have i: "i < length (reclassify ds ps)" using assms(1) by (simp add: first_with_sha_def)
  have ne: "filter (\<lambda>p. sha p = sha (ds ! i)) ps \<noteq> []"
    using assms(2) by (auto simp: filter_empty_conv)
  show ?thesis
    unfolding reconcile_def
    using append_missing_nth[OF i, of ps] reclassify_nth[OF assms(1), of ps] ne
    by (auto split: list.splits)
qed

lemma reclassify_sha_set: "sha ` set (reclassify ds ps) = sha ` set ds"
  by (metis reclassify_map_sha set_map)

lemma reconcile_count:
  assumes "s \<in> sha ` set ds"
  shows "length (filter (\<lambda>c. sha c = s) (reconcile ds ps)) = length (filter (\<lambda>c. sha c = s) ds)"
proof -
  have "s \<in> sha ` set (reclassify ds ps)" using assms by (simp only: reclassify_sha_set)
  then have "filter (\<lambda>c. sha c = s) (reconcile ds ps) = filter (\<lambda>c. sha c = s) (reclassify ds ps)"
    unfolding reconcile_def by (rule append_missing_filter)
  then show ?thesis by (simp add: length_filter_sha)
qed

lemma update_found_set: "set (update_found s f cs) \<subseteq> set cs \<union> f ` set cs"
  by (induction cs) auto

lemma reclassify_step_inv:
  assumes "list_all type_matches_pullRequest ds" and "pullRequest p \<noteq> None"
  shows "list_all type_matches_pullRequest (reclassify_step ds p)"
proof -
  have "\<And>c. type_matches_pullRequest (c\<lparr>type := pull_request, pullRequest := pullRequest p\<rparr>)"
    using assms(2) by (simp add: type_matches_pullRequest_def)
  then show ?thesis
    using assms(1) update_found_set[of "sha p" _ ds]
    unfolding reclassify_step_def list_all_iff by blast
qed

lemma reclassify_inv:
  "list_all type_matches_pullRequest ds \<Longrightarrow> list_all (\<lambda>p. pullRequest p \<noteq> None) ps \<Longrightarrow>
   list_all type_matches_pullRequest (reclassify ds ps)"
  by (induction ps arbitrary: ds) (simp_all add: reclassify_step_inv)

lemma append_missing_inv:
  "list_all P ds \<Longrightarrow> list_all P ps \<Longrightarrow> list_all P (append_missing ds ps)"
  by (induction ps arbitrary: ds) (simp_all add: append_step_def)

lemma append_step_distinct: "distinct (map sha ds) \<Longrightarrow> distinct (map sha (append_step ds p))"
  unfolding append_step_def by (auto simp: find_None_iff)

lemma append_missing_distinct: "distinct (map sha ds) \<Longrightarrow> distinct (map sha (append_missing ds ps))"
  by (induction ps arbitrary: ds) (auto simp: append_step_distinct)

text \<open>
  Claim C1 (as amended). When the direct commits carry pairwise distinct shas, the
  reconciliation (reclassify, then append) yields a collection in which no two entries
  share a sha, whatever the PR commits are, repeated shas among them included.
\<close>

theorem reconcile_no_duplicate_sha:
  "distinct (map sha directCommits) \<Longrightarrow> distinct (map sha (reconcile directCommits prCommits))"
  unfolding reconcile_def by (simp add: append_missing_distinct)

theorem reconcile_no_duplicate_sha_witness:
  "distinct (map sha [baseCommit_direct ''o'' ''r'' (listed_commit ''abc'') no_details]) \<and>
   distinct (map sha (reconcile [baseCommit_direct ''o'' ''r'' (listed_commit ''abc'') no_details]
      [baseCommit_pull_request ''o'' ''r'' 5 (listed_commit ''def'') no_details,
       baseCommit_pull_request ''o'' ''r'' 6 (listed_commit ''def'') no_details]))"
  using reconcile_no_duplicate_sha[of "[baseCommit_direct ''o'' ''r'' (listed_commit ''abc'') no_details]"
      "[baseCommit_pull_request ''o'' ''r'' 5 (listed_commit ''def'') no_details,
       baseCommit_pull_request ''o'' ''r'' 6 (listed_commit ''def'') no_details]"]
  by simp

text \<open>
  The same is false of all commit collections: a sha that the repository walk found in two
  repositories (a repository and its fork) stays twice in the output.
\<close>

theorem reconcile_duplicate_sha_counterexample:
  "\<not> distinct (map sha (reconcile
      [baseCommit_direct ''o'' ''r'' (listed_commit ''abc'') no_details,
       baseCommit_direct ''o'' ''fork'' (listed_commit ''abc'') no_details] []))"
  by (simp add: reconcile_def baseCommit_direct_def listed_commit_def)




section \<open>Properties of the merge of the two searches\<close>

lemma findIndex_ge: "- 1 \<le> findIndex P xs"
  by (induction xs) (auto simp: Let_def)

lemma findIndex_eq_iff:
  "(findIndex P xs = int i) = (i < length xs \<and> P (xs ! i) \<and> (\<forall>j<i. \<not> P (xs ! j)))"
proof (induction xs arbitrary: i)
  case Nil
  then show ?case by simp
next
  case (Cons x xs)
  show ?case
  proof (cases "P x")
    case True
    then show ?thesis by (cases i) auto
  next
    case False
    show ?thesis
    proof (cases i)
      case 0
      then show ?thesis using False findIndex_ge[of P xs] by (auto simp: Let_def)
    next
      case (Suc k)
      have a: "(\<forall>j<Suc k. \<not> P ((x # xs) ! j)) = (\<forall>j<k. \<not> P (xs ! j))"
        using False by (auto simp: less_Suc_eq_0_disj)
      have b: "(findIndex P (x # xs) = int (Suc k)) = (findIndex P xs = int k)"
        using False by (auto simp: Let_def)
      show ?thesis unfolding Suc b Cons.IH[of k] a by simp
    qed
  qed
qed

lemma zip_index_filter:
  "map fst (filter (\<lambda>(x, i). Q x i) (zip xs [0..<length xs])) =
   map (nth xs) (filter (\<lambda>i. Q (xs ! i) i) [0..<length xs])"
proof (induction xs rule: rev_induct)
  case Nil
  then show ?case by simp
next
  case (snoc x xs)
  have f: "filter (\<lambda>i. Q ((xs @ [x]) ! i) i) [0..<length xs] = filter (\<lambda>i. Q (xs ! i) i) [0..<length xs]"
    by (rule filter_cong) (auto simp: nth_append)
  have m: "map (nth (xs @ [x])) (filter (\<lambda>i. Q (xs ! i) i) [0..<length xs])
         = map (nth xs) (filter (\<lambda>i. Q (xs ! i) i) [0..<length xs])"
    by (rule map_cong) (auto simp: nth_append)
  show ?case using snoc f m by (simp add: nth_append)
qed

lemma same_pr_key: "same_pr pr p = (pr_key p = pr_key pr)"
  by (auto simp: same_pr_def pr_key_def)

lemma uniquePRs_indices:
  "uniquePRs xs = map (nth xs) (filter (keeps xs) [0..<length xs])"
proof -
  have "filter (\<lambda>i. int i = findIndex (same_pr (xs ! i)) xs) [0..<length xs]
      = filter (keeps xs) [0..<length xs]"
    by (rule filter_cong) (auto simp: findIndex_eq_iff[symmetric] eq_commute[of "int _"] findIndex_eq_iff same_pr_key keeps_def)
  then show ?thesis
    unfolding uniquePRs_def
    using zip_index_filter[of "\<lambda>pr index. int index = findIndex (same_pr pr) xs" xs]
    by simp
qed

lemma uniquePRs_distinct: "distinct (map pr_key (uniquePRs xs))"
proof -
  let ?I = "filter (keeps xs) [0..<length xs]"
  have "inj_on (\<lambda>i. pr_key (xs ! i)) (set ?I)"
  proof (rule inj_onI)
    fix i j assume i: "i \<in> set ?I" and j: "j \<in> set ?I"
      and e: "pr_key (xs ! i) = pr_key (xs ! j)"
    show "i = j"
    proof (rule ccontr)
      assume "i \<noteq> j"
      then consider "i < j" | "j < i" by linarith
      then show False using i j e by cases (auto simp: keeps_def)
    qed
  qed
  then have "distinct (map (\<lambda>i. pr_key (xs ! i)) ?I)"
    by (simp add: distinct_map)
  then show ?thesis by (simp add: uniquePRs_indices comp_def)
qed

lemma uniquePRs_subset: "set (uniquePRs xs) \<subseteq> set xs"
  by (auto simp: uniquePRs_indices)

lemma uniquePRs_keys: "pr_key ` set (uniquePRs xs) = pr_key ` set xs"
proof
  show "pr_key ` set (uniquePRs xs) \<subseteq> pr_key ` set xs"
    using uniquePRs_subset by blast
  show "pr_key ` set xs \<subseteq> pr_key ` set (uniquePRs xs)"
  proof
    fix k assume "k \<in> pr_key ` set xs"
    then obtain i where i: "i < length xs" "pr_key (xs ! i) = k"
      by (auto simp: in_set_conv_nth)
    define m where "m = (LEAST m. pr_key (xs ! m) = k)"
    have mk: "pr_key (xs ! m) = k" unfolding m_def using i(2) by (rule LeastI)
    have ml: "m \<le> i" unfolding m_def using i(2) by (rule Least_le)
    have "keeps xs m"
      unfolding keeps_def
    proof (intro allI impI)
      fix j assume "j < m"
      then show "pr_key (xs ! j) \<noteq> pr_key (xs ! m)"
        using not_less_Least[of j "\<lambda>m. pr_key (xs ! m) = k"] mk m_def by auto
    qed
    then have "xs ! m \<in> set (uniquePRs xs)"
      using ml i(1) by (auto simp: uniquePRs_indices)
    then show "k \<in> pr_key ` set (uniquePRs xs)" using mk by blast
  qed
qed

lemma uniquePRs_first:
  assumes "p \<in> set (uniquePRs xs)"
  shows "find (same_pr p) xs = Some p"
proof -
  from assms obtain i where i: "i < length xs" "keeps xs i" "p = xs ! i"
    by (auto simp: uniquePRs_indices)
  then show ?thesis
    by (auto simp: find_Some_iff same_pr_key keeps_def intro!: exI[of _ i])
qed

lemma uniquePRs_length: "length (uniquePRs xs) = card (pr_key ` set xs)"
  using distinct_card[OF uniquePRs_distinct[of xs]] uniquePRs_keys[of xs]
  by (metis length_map set_map)

text \<open>
  Claim C5 (as amended). The merge of the author search and the user search is their
  concatenation without duplicates of the pair (number, repository URL): no two results
  share the pair, every pair of the inputs is kept, the size is the number of distinct
  pairs, and each result is the first entry of the concatenation with its pair.
\<close>

theorem merge_searches_by_number_and_repository:
  "distinct (map pr_key (merge_searches authorResults userResults)) \<and>
   pr_key ` set (merge_searches authorResults userResults) = pr_key ` set (authorResults @ userResults) \<and>
   length (merge_searches authorResults userResults) = card (pr_key ` set (authorResults @ userResults)) \<and>
   (\<forall>p \<in> set (merge_searches authorResults userResults).
      find (same_pr p) (authorResults @ userResults) = Some p)"
  unfolding merge_searches_def
  using uniquePRs_distinct uniquePRs_keys uniquePRs_length uniquePRs_first by blast

theorem merge_searches_by_number_and_repository_witness:
  "merge_searches [pr_item 1 7 ''https://api.github.com/repos/o/r'']
      [pr_item 1 7 ''https://api.github.com/repos/o/r'', pr_item 2 8 ''https://api.github.com/repos/o/r'']
    = [pr_item 1 7 ''https://api.github.com/repos/o/r'', pr_item 2 8 ''https://api.github.com/repos/o/r''] \<and>
   find (same_pr (pr_item 2 8 ''https://api.github.com/repos/o/r''))
     ([pr_item 1 7 ''https://api.github.com/repos/o/r''] @
      [pr_item 1 7 ''https://api.github.com/repos/o/r'', pr_item 2 8 ''https://api.github.com/repos/o/r''])
       = Some (pr_item 2 8 ''https://api.github.com/repos/o/r'') \<and>
   card (pr_key ` set ([pr_item 1 7 ''https://api.github.com/repos/o/r''] @
      [pr_item 1 7 ''https://api.github.com/repos/o/r'', pr_item 2 8 ''https://api.github.com/repos/o/r'']))
     = 2"
proof -
  let ?a = "pr_item 1 7 ''https://api.github.com/repos/o/r''"
  let ?b = "pr_item 2 8 ''https://api.github.com/repos/o/r''"
  have m: "merge_searches [?a] [?a, ?b] = [?a, ?b]"
    by (simp add: merge_searches_def uniquePRs_def same_pr_def pr_item_def upt_rec)
  note t = merge_searches_by_number_and_repository[of "[?a]" "[?a, ?b]"]
  have "?b \<in> set (merge_searches [?a] [?a, ?b])"
    unfolding m by simp
  from t[THEN conjunct2, THEN conjunct2, THEN conjunct2, THEN bspec, OF this]
  have f: "find (same_pr ?b) ([?a] @ [?a, ?b]) = Some ?b" .
  have "length (merge_searches [?a] [?a, ?b]) = 2"
    unfolding m by simp
  with t[THEN conjunct2, THEN conjunct2, THEN conjunct1]
  have c: "card (pr_key ` set ([?a] @ [?a, ?b])) = 2"
    by (simp only:)
  from m f c show ?thesis by (intro conjI)
qed

text \<open>
  The merge does not count by id: two entries with the same number and repository URL and
  different ids become one, and two entries with one id under different repository URLs
  are both kept.
\<close>

theorem merge_searches_by_id_counterexample:
  "merge_searches [pr_item 1 7 ''https://api.github.com/repos/o/r'']
      [pr_item 2 7 ''https://api.github.com/repos/o/r'']
     = [pr_item 1 7 ''https://api.github.com/repos/o/r''] \<and>
   card (id_pr ` set ([pr_item 1 7 ''https://api.github.com/repos/o/r'']
      @ [pr_item 2 7 ''https://api.github.com/repos/o/r''])) = 2 \<and>
   length (merge_searches [pr_item 1 7 ''https://api.github.com/repos/o/r'']
      [pr_item 1 7 ''https://api.github.com/repos/O/r'']) = 2 \<and>
   card (id_pr ` set ([pr_item 1 7 ''https://api.github.com/repos/o/r'']
      @ [pr_item 1 7 ''https://api.github.com/repos/O/r''])) = 1"
  by (simp add: merge_searches_def uniquePRs_def same_pr_def pr_item_def upt_rec)

section \<open>Properties of the date partitions\<close>

text \<open>
  Every day of the range before its last day lies in a partition; the last day does so
  exactly when the length of the range is not a multiple of 8 days.
\<close>

lemma createDatePartitions_from_unfold:
  "createDatePartitions_from current endDate =
     (if current < endDate
      then \<lparr>start = current, end' = (if current + 7 > endDate then endDate else current + 7)\<rparr>
             # createDatePartitions_from (current + 8) endDate
      else [])"
  by (subst createDatePartitions_from.simps) (simp add: Let_def)

lemma createDatePartitions_covers_before_end:
  "startDate \<le> d \<Longrightarrow> d < endDate \<Longrightarrow> covered (createDatePartitions startDate endDate) d"
  unfolding createDatePartitions_def
proof (induction startDate endDate rule: createDatePartitions_from.induct)
  case (1 current endDate)
  have lt: "current < endDate" using "1.prems" by simp
  show ?case
  proof (cases "d \<le> current + 7")
    case True
    then show ?thesis
      using "1.prems" lt
      by (subst createDatePartitions_from_unfold) (simp add: covered_def)
  next
    case False
    then have "covered (createDatePartitions_from (current + 8) endDate) d"
      using "1.IH"[OF lt refl refl] "1.prems" by simp
    then show ?thesis
      using lt by (subst createDatePartitions_from_unfold) (simp add: covered_def)
  qed
qed

lemma createDatePartitions_end_covered_iff:
  "startDate \<le> endDate \<Longrightarrow>
   covered (createDatePartitions startDate endDate) endDate = ((endDate - startDate) mod 8 \<noteq> 0)"
  unfolding createDatePartitions_def
proof (induction startDate endDate rule: createDatePartitions_from.induct)
  case (1 current endDate)
  show ?case
  proof (cases "current < endDate")
    case False
    then have "current = endDate" using "1.prems" by simp
    then show ?thesis
      by (subst createDatePartitions_from_unfold) (simp add: covered_def)
  next
    case lt: True
    show ?thesis
    proof (cases "endDate \<le> current + 7")
      case True
      then have "(endDate - current) mod 8 \<noteq> 0" using lt by (simp add: mod_pos_pos_trivial)
      then show ?thesis
        using True lt by (subst createDatePartitions_from_unfold) (simp add: covered_def)
    next
      case False
      then have le: "current + 8 \<le> endDate" by simp
      have m: "(endDate - (current + 8)) mod 8 = (endDate - current) mod 8"
        by (metis diff_diff_eq mod_diff_right_eq mod_self diff_zero)
      show ?thesis
        using "1.IH"[OF lt refl refl le] False lt m
        by (subst createDatePartitions_from_unfold) (simp add: covered_def)
    qed
  qed
qed

text \<open>
  Claim C2. The partitions of a range cover every day of it. This fails when the end is the
  start plus a multiple of 8 days: for 2024-01-01 (day 19723) to 2024-01-09 (day 19731) the
  only partition is 2024-01-01..2024-01-08, and the last day lies in no partition.
\<close>

theorem createDatePartitions_boundary_day_missing:
  "createDatePartitions 19723 19731 = [\<lparr>start = 19723, end' = 19730\<rparr>] \<and>
   \<not> covered (createDatePartitions 19723 19731) 19731"
  by (simp add: createDatePartitions_def covered_def)

text \<open>
  Claim C7. A range of a single day passes the date logic of \<^verbatim>\<open>main\<close> and is
  to give the single-day partition; \<^verbatim>\<open>createDatePartitions\<close> returns no
  partition for it.
\<close>

theorem createDatePartitions_single_day_empty:
  "main_date_logic d d = Inr () \<and> createDatePartitions d d = []"
  by (simp add: main_date_logic_def createDatePartitions_def)

section \<open>Properties of the engine\<close>

lemma same_control_refl[simp]: "same_control st st"
  by (simp add: same_control_def)

lemma same_control_trans: "same_control a b \<Longrightarrow> same_control b c \<Longrightarrow> same_control a c"
  by (simp add: same_control_def)

lemma same_control_limit: "same_control st st' \<Longrightarrow> checkTotalRecordsLimit st' = checkTotalRecordsLimit st"
  by (simp add: same_control_def checkTotalRecordsLimit_def)

lemma makeRequest_outcome: "snd (makeRequest st u r) = request_outcome r"
  by (cases r) (simp_all add: makeRequest_def request_outcome_def Let_def)

lemma makeRequest_control: "same_control st (fst (makeRequest st u r))"
  by (cases r) (simp_all add: makeRequest_def same_control_def Let_def)

lemma makeRequest_errors: "errors (fst (makeRequest st u r)) = errors st"
  by (cases r) (simp_all add: makeRequest_def Let_def)

lemma getUserRepositories_loop_Inr:
  assumes "getUserRepositories_loop gh username st repos page = Some y"
  shows "\<exists>st' rs. y = (st', Inr rs)"
  by (rule getUserRepositories_loop.raw_induct[OF _ assms])
     (auto simp: Let_def split: if_splits prod.splits sum.splits)

lemma getRepositoryCommits_loop_Inr:
  assumes "getRepositoryCommits_loop gh owner repo a dr st acc page = Some y"
  shows "\<exists>st' rs. y = (st', Inr rs)"
  by (rule getRepositoryCommits_loop.raw_induct[OF _ assms])
     (auto simp: Let_def split: if_splits prod.splits sum.splits)

lemma makeRequest_cases:
  obtains st1 where "makeRequest st u r = (st1, request_outcome r)"
    and "errors st1 = errors st" and "same_control st st1"
  using makeRequest_outcome[of st u r] makeRequest_errors[of st u r] makeRequest_control[of st u r]
  by (cases "makeRequest st u r") auto

lemma getDetailedCommitInfo_control:
  assumes "getDetailedCommitInfo gh st owner repo s = (st', d)"
  shows "same_control st st' \<and> errors st' = errors st"
proof -
  obtain st1 where m: "makeRequest st (GET_repo_commit owner repo s) (get_commit gh owner repo s)
      = (st1, request_outcome (get_commit gh owner repo s))"
    and e: "errors st1 = errors st" and c: "same_control st st1"
    by (rule makeRequest_cases)
  have "st' = st1"
    using assms m by (simp add: getDetailedCommitInfo_def split: sum.splits)
  then show ?thesis using e c by simp
qed

lemma details_if_enabled_control:
  assumes "details_if_enabled gh st owner repo s = (st', d)"
  shows "same_control st st' \<and> errors st' = errors st"
proof (cases "includeDetails (config st)")
  case True
  then show ?thesis
    using assms getDetailedCommitInfo_control[of gh st owner repo s st' d]
    by (simp add: details_if_enabled_def)
next
  case False
  then show ?thesis using assms by (simp add: details_if_enabled_def)
qed

lemma formatted_props:
  "formatted gh st owner repo cs = (st', out) \<Longrightarrow>
   list_all direct_form out \<and> map sha out = map api_sha cs \<and> same_control st st' \<and> errors st' = errors st"
proof (induction cs arbitrary: st st' out)
  case Nil
  then show ?case by simp
next
  case (Cons c cs)
  obtain st1 d where d: "details_if_enabled gh st owner repo (api_sha c) = (st1, d)"
    by (cases "details_if_enabled gh st owner repo (api_sha c)")
  obtain st2 rest where r: "formatted gh st1 owner repo cs = (st2, rest)"
    by (cases "formatted gh st1 owner repo cs")
  have o: "st' = st2" "out = baseCommit_direct owner repo c d # rest"
    using Cons.prems d r by auto
  have h: "direct_form (baseCommit_direct owner repo c d)"
    "sha (baseCommit_direct owner repo c d) = api_sha c"
    by (simp_all add: direct_form_def baseCommit_direct_def)
  have "same_control st st2"
    using Cons.IH[OF r] details_if_enabled_control[OF d] same_control_trans[of st st1 st2] by simp
  then show ?case
    using Cons.IH[OF r] details_if_enabled_control[OF d] o h by simp
qed

lemma enhancedCommits_props:
  "enhancedCommits gh st owner repo n cs = (st', out) \<Longrightarrow>
   list_all pull_request_form out \<and> map sha out = map api_sha cs \<and> same_control st st'
     \<and> errors st' = errors st"
proof (induction cs arbitrary: st st' out)
  case Nil
  then show ?case by simp
next
  case (Cons c cs)
  obtain st1 d where d: "details_if_enabled gh st owner repo (api_sha c) = (st1, d)"
    by (cases "details_if_enabled gh st owner repo (api_sha c)")
  obtain st2 rest where r: "enhancedCommits gh st1 owner repo n cs = (st2, rest)"
    by (cases "enhancedCommits gh st1 owner repo n cs")
  have o: "st' = st2" "out = baseCommit_pull_request owner repo n c d # rest"
    using Cons.prems d r by auto
  have h: "pull_request_form (baseCommit_pull_request owner repo n c d)"
    "sha (baseCommit_pull_request owner repo n c d) = api_sha c"
    by (simp_all add: pull_request_form_def baseCommit_pull_request_def)
  have "same_control st st2"
    using Cons.IH[OF r] details_if_enabled_control[OF d] same_control_trans[of st st1 st2] by simp
  then show ?case
    using Cons.IH[OF r] details_if_enabled_control[OF d] o h by simp
qed

lemma splice_subset: "set (splice k xs) \<subseteq> set xs"
  unfolding splice_def by (rule set_take_subset)

lemma list_all_splice: "list_all P xs \<Longrightarrow> list_all P (splice k xs)"
  using splice_subset[of k xs] by (auto simp: list_all_iff)

lemma getRepositoryCommits_loop_direct:
  assumes "getRepositoryCommits_loop gh owner repo a dr st acc page = Some y"
  shows "list_all direct_form acc \<longrightarrow> (\<forall>st' out. y = (st', Inr out) \<longrightarrow> list_all direct_form out)"
proof (rule getRepositoryCommits_loop.raw_induct[OF _ assms], goal_cases)
  case (1 f gh owner repo a dr st acc page y)
  note IH = 1(1) and body = 1(2)
  let ?req = "list_commits gh owner repo a page (min 100 (getRemainingRecords st))
      (if dr \<noteq> None \<and> \<not> ignoreDateRange (config st) then dr else None)"
  show ?case
  proof (intro impI allI)
    fix st' out
    assume acc: "list_all direct_form acc" and y: "y = (st', Inr out)"
    show "list_all direct_form out"
    proof (cases "\<not> cancelled st \<and> \<not> checkTotalRecordsLimit st")
      case False
      then show ?thesis using body acc y by auto
    next
      case guard: True
      obtain st1 res where m: "makeRequest st (GET_repo_commits owner repo) ?req = (st1, res)"
        by (cases "makeRequest st (GET_repo_commits owner repo) ?req")
      show ?thesis
      proof (cases res)
        case (Inl e)
        then show ?thesis using body guard m acc y by (auto simp: Let_def split: if_splits)
      next
        case (Inr response)
        show ?thesis
        proof (cases "length response = 0")
          case True
          then show ?thesis using body guard m Inr acc y by (auto simp: Let_def)
        next
          case nonempty: False
          obtain st2 fc where fm: "formatted gh st1 owner repo response = (st2, fc)"
            by (cases "formatted gh st1 owner repo response")
          have fc: "list_all direct_form (acc @ fc)"
            using formatted_props[OF fm] acc by simp
          let ?st3 = "st2\<lparr>totalFetched := totalFetched st2 + int (length fc)\<rparr>"
          show ?thesis
          proof (cases "length response < 100")
            case True
            then show ?thesis using body guard m Inr nonempty fm fc y by (auto simp: Let_def)
          next
            case full: False
            show ?thesis
            proof (cases "checkTotalRecordsLimit ?st3")
              case True
              then show ?thesis
                using body guard m Inr nonempty fm fc y full list_all_splice[OF fc]
                by (auto simp: Let_def split: if_splits)
            next
              case False
              then have "f gh owner repo a dr ?st3 (acc @ fc) (page + 1) = Some y"
                using body guard m Inr nonempty fm full by (simp add: Let_def)
              from IH[OF this] fc y show ?thesis by blast
            qed
          qed
        qed
      qed
    qed
  qed
qed

lemma getRepositoryCommits_direct:
  assumes "getRepositoryCommits gh st owner repo a dr = Some (st', Inr out)"
  shows "list_all direct_form out"
  using getRepositoryCommits_loop_direct[of gh owner repo a dr st "[]" 1 "(st', Inr out)"] assms
  by (simp add: getRepositoryCommits_def)

lemma repositories_loop_direct:
  "repositories_loop gh u dr st acc rs = Some (st', Inr out) \<Longrightarrow> list_all direct_form acc
   \<Longrightarrow> list_all direct_form out"
proof (induction rs arbitrary: st acc)
  case Nil
  then show ?case by simp
next
  case (Cons r rs)
  show ?case
  proof (cases "cancelled st \<or> checkTotalRecordsLimit st")
    case True
    then show ?thesis using Cons.prems by auto
  next
    case guard: False
    show ?thesis
    proof (cases "getRepositoryCommits gh st (owner_login r) (name r) u dr")
      case None
      then show ?thesis using Cons.prems guard by simp
    next
      case (Some res)
      obtain st1 x where res: "res = (st1, x)" by (cases res)
      show ?thesis
      proof (cases x)
        case (Inl e)
        then show ?thesis using Cons.prems guard Some res by simp
      next
        case (Inr rc)
        have rc: "list_all direct_form (acc @ rc)"
          using getRepositoryCommits_direct[of gh st "owner_login r" "name r" u dr st1 rc]
            Some res Inr Cons.prems(2) by simp
        show ?thesis
        proof (cases "checkTotalRecordsLimit st1")
          case True
          then show ?thesis using Cons.prems(1) guard Some res Inr rc by (auto simp: Let_def)
        next
          case False
          then have "repositories_loop gh u dr st1 (acc @ rc) rs = Some (st', Inr out)"
            using Cons.prems(1) guard Some res Inr by (simp add: Let_def)
          from Cons.IH[OF this rc] show ?thesis .
        qed
      qed
    qed
  qed
qed

lemma searchUserRepositoryCommits_direct:
  assumes "searchUserRepositoryCommits gh st u dr = Some (st', Inr out)"
  shows "list_all direct_form out"
proof (cases "getUserRepositories gh st u")
  case None
  then show ?thesis using assms by (simp add: searchUserRepositoryCommits_def)
next
  case (Some res)
  obtain st1 x where res: "res = (st1, x)" by (cases res)
  show ?thesis
  proof (cases x)
    case (Inl e)
    then show ?thesis using assms Some res by (simp add: searchUserRepositoryCommits_def)
  next
    case (Inr repos)
    then have "repositories_loop gh u dr st1 [] (filter (repo_selected (config st1)) repos)
        = Some (st', Inr out)"
      using assms Some res by (simp add: searchUserRepositoryCommits_def)
    from repositories_loop_direct[OF this] show ?thesis by simp
  qed
qed

lemma getPullRequestCommits_form:
  assumes "getPullRequestCommits gh st owner repo n = (st', Inr out)"
  shows "list_all pull_request_form out"
proof -
  obtain st1 res where m: "makeRequest st (GET_pull_commits owner repo n)
      (list_pull_commits gh owner repo n) = (st1, res)"
    by (cases "makeRequest st (GET_pull_commits owner repo n) (list_pull_commits gh owner repo n)")
  show ?thesis
  proof (cases res)
    case (Inl e)
    then show ?thesis using assms m by (auto simp: getPullRequestCommits_def)
  next
    case (Inr listed)
    obtain st2 en where en: "enhancedCommits gh st1 owner repo n listed = (st2, en)"
      by (cases "enhancedCommits gh st1 owner repo n listed")
    then show ?thesis
      using assms m Inr enhancedCommits_props[OF en] by (auto simp: getPullRequestCommits_def)
  qed
qed

lemma pull_requests_loop_form:
  "pull_requests_loop gh st acc prs = (st', Inr out) \<Longrightarrow> list_all pull_request_form acc
   \<Longrightarrow> list_all pull_request_form out"
proof (induction prs arbitrary: st acc)
  case Nil
  then show ?case by simp
next
  case (Cons pr prs)
  show ?case
  proof (cases "cancelled st \<or> checkTotalRecordsLimit st")
    case True
    then show ?thesis using Cons.prems by auto
  next
    case guard: False
    obtain owner repo where orr: "owner_and_repo (repository_url pr) = (owner, repo)"
      by (cases "owner_and_repo (repository_url pr)")
    obtain st1 x where g: "getPullRequestCommits gh st owner repo (number pr) = (st1, x)"
      by (cases "getPullRequestCommits gh st owner repo (number pr)")
    show ?thesis
    proof (cases x)
      case (Inl e)
      then show ?thesis using Cons.prems guard orr g by simp
    next
      case (Inr pc)
      have pc: "list_all pull_request_form (acc @ pc)"
        using getPullRequestCommits_form[of gh st owner repo "number pr" st1 pc] g Inr Cons.prems(2)
        by simp
      have "pull_requests_loop gh st1 (acc @ pc) prs = (st', Inr out)"
        using Cons.prems(1) guard orr g Inr by simp
      from Cons.IH[OF this pc] show ?thesis .
    qed
  qed
qed

lemma direct_form_matches: "direct_form c \<Longrightarrow> type_matches_pullRequest c"
  by (simp add: direct_form_def type_matches_pullRequest_def)

lemma pull_request_form_matches: "pull_request_form c \<Longrightarrow> type_matches_pullRequest c"
  by (simp add: pull_request_form_def type_matches_pullRequest_def)

lemma reconcile_matches:
  assumes "list_all direct_form ds" and "list_all pull_request_form ps"
  shows "list_all type_matches_pullRequest (reconcile ds ps)"
proof -
  have d: "list_all type_matches_pullRequest ds"
    using assms(1) direct_form_matches by (auto simp: list_all_iff)
  have p: "list_all type_matches_pullRequest ps"
    using assms(2) pull_request_form_matches by (auto simp: list_all_iff)
  have n: "list_all (\<lambda>p. pullRequest p \<noteq> None) ps"
    using assms(2) by (auto simp: list_all_iff pull_request_form_def)
  show ?thesis
    unfolding reconcile_def
    using append_missing_inv[OF reclassify_inv[OF d n] p] .
qed

lemma store_commits_matches:
  "list_all type_matches_pullRequest ds \<Longrightarrow>
   list_all type_matches_pullRequest (commits (store_commits st ds))"
  by (simp add: store_commits_def list_all_iff type_matches_pullRequest_def commit.defs)

lemma update_found_absent: "s \<notin> sha ` set cs \<Longrightarrow> update_found s f cs = cs"
  by (induction cs) auto

lemma reclassify_disjoint: "sha ` set ds \<inter> sha ` set ps = {} \<Longrightarrow> reclassify ds ps = ds"
proof (induction ps arbitrary: ds)
  case Nil
  then show ?case by simp
next
  case (Cons p ps)
  have "sha p \<notin> sha ` set ds" using Cons.prems by auto
  then have "reclassify_step ds p = ds" by (simp add: reclassify_step_def update_found_absent)
  moreover have "sha ` set ds \<inter> sha ` set ps = {}" using Cons.prems by auto
  ultimately show ?case using Cons.IH by simp
qed

lemma append_missing_disjoint:
  "distinct (map sha ps) \<Longrightarrow> sha ` set ds \<inter> sha ` set ps = {} \<Longrightarrow> append_missing ds ps = ds @ ps"
proof (induction ps arbitrary: ds)
  case Nil
  then show ?case by simp
next
  case (Cons p ps)
  have "sha p \<notin> sha ` set ds" using Cons.prems(2) by auto
  then have s: "append_step ds p = ds @ [p]"
    by (simp add: append_step_def find_None_iff image_iff) metis
  have "sha ` set (ds @ [p]) \<inter> sha ` set ps = {}" using Cons.prems by auto
  then have "append_missing (ds @ [p]) ps = (ds @ [p]) @ ps"
    using Cons.IH[of "ds @ [p]"] Cons.prems(1) by simp
  then show ?case using s by simp
qed

lemma reconcile_disjoint:
  "distinct (map sha ps) \<Longrightarrow> sha ` set ds \<inter> sha ` set ps = {} \<Longrightarrow> reconcile ds ps = ds @ ps"
  by (simp add: reconcile_def reclassify_disjoint append_missing_disjoint)

lemma getUserRepositories_short_page:
  assumes "\<not> cancelled st" and "\<not> checkTotalRecordsLimit st"
    and "list_repos gh u 1 (min 100 (getRemainingRecords st)) = Response 200 rs"
    and "length rs < 100"
  shows "\<exists>st'. getUserRepositories gh st u = Some (st', Inr rs) \<and> config st' = config st
    \<and> cancelled st' = cancelled st \<and> totalFetched st' = totalFetched st + int (length rs)"
  unfolding getUserRepositories_def
  using assms
  by (subst getUserRepositories_loop.simps) (simp add: Let_def makeRequest_def)

lemma getRepositoryCommits_short_page:
  assumes "\<not> cancelled st" and "\<not> checkTotalRecordsLimit st"
    and "list_commits gh owner repo a 1 (min 100 (getRemainingRecords st))
           (if dr \<noteq> None \<and> \<not> ignoreDateRange (config st) then dr else None) = Response 200 cs"
    and "length cs < 100"
  shows "\<exists>st' out. getRepositoryCommits gh st owner repo a dr = Some (st', Inr out)
    \<and> map sha out = map api_sha cs \<and> config st' = config st
    \<and> cancelled st' = cancelled st \<and> totalFetched st' = totalFetched st + int (length cs)"
proof -
  let ?st1 = "st\<lparr>apiCalls := apiCalls st @
      [\<lparr>call_url = GET_repo_commits owner repo, call_status = Some 200, call_error = None\<rparr>]\<rparr>"
  have m: "makeRequest st (GET_repo_commits owner repo) (Response 200 cs) = (?st1, Inr cs)"
    by (simp add: makeRequest_def)
  obtain st2 fc where fm: "formatted gh ?st1 owner repo cs = (st2, fc)"
    by (cases "formatted gh ?st1 owner repo cs")
  note p = formatted_props[OF fm]
  have l: "length fc = length cs" using p by (metis length_map)
  show ?thesis
    unfolding getRepositoryCommits_def
    using assms m fm p l
    by (subst getRepositoryCommits_loop.simps) (auto simp: Let_def same_control_def)
qed

lemma searchPullRequestsForQuery_short_page:
  assumes "\<not> cancelled st" and "\<not> checkTotalRecordsLimit st"
    and "search_issues gh query 1 (min 100 (getRemainingRecords st)) = Response 200 items"
    and "length items < 100"
  shows "\<exists>st'. searchPullRequestsForQuery gh st query = Some (st', Inr items)
    \<and> same_control st st'"
  unfolding searchPullRequestsForQuery_def
  using assms
  by (subst searchPullRequestsForQuery_loop.simps) (auto simp: Let_def makeRequest_def same_control_def)

lemma getPullRequestCommits_listed:
  assumes "list_pull_commits gh owner repo n = Response 200 cs"
  shows "\<exists>st' out. getPullRequestCommits gh st owner repo n = (st', Inr out)
    \<and> map sha out = map api_sha cs \<and> same_control st st'"
proof -
  let ?st1 = "st\<lparr>apiCalls := apiCalls st @
      [\<lparr>call_url = GET_pull_commits owner repo n, call_status = Some 200, call_error = None\<rparr>]\<rparr>"
  have m: "makeRequest st (GET_pull_commits owner repo n) (Response 200 cs) = (?st1, Inr cs)"
    by (simp add: makeRequest_def)
  obtain st2 en where en: "enhancedCommits gh ?st1 owner repo n cs = (st2, en)"
    by (cases "enhancedCommits gh ?st1 owner repo n cs")
  note p = enhancedCommits_props[OF en]
  show ?thesis
    using assms m en p by (auto simp: getPullRequestCommits_def same_control_def)
qed

lemma listed_shas: "map api_sha (listed c n) = map (\<lambda>i. replicate (Suc i) c) [0..<n]"
  by (simp add: listed_def listed_commit_def comp_def)

lemma listed_length[simp]: "length (listed c n) = n"
  by (simp add: listed_def)

lemma listed_distinct: "distinct (map api_sha (listed c n))"
proof -
  have "inj_on (\<lambda>i. replicate (Suc i) c) (set [0..<n])"
    by (rule inj_onI) (metis length_replicate nat.inject)
  then show ?thesis unfolding listed_shas by (simp add: distinct_map)
qed

lemma listed_disjoint:
  assumes "c \<noteq> c'"
  shows "set (map api_sha (listed c n)) \<inter> set (map api_sha (listed c' m)) = {}"
proof -
  have "\<And>i j. replicate (Suc i) c \<noteq> replicate (Suc j) c'" using assms by simp
  then show ?thesis unfolding listed_shas by auto
qed

lemma example_owner_and_repo:
  "owner_and_repo ''https://api.github.com/repos/o/r'' = (''o'', ''r'')"
  by (simp add: owner_and_repo_def Let_def)

lemma pull_requests_loop_single:
  assumes "\<not> cancelled st" and "\<not> checkTotalRecordsLimit st"
    and "owner_and_repo (repository_url pr) = (owner, repo)"
    and "getPullRequestCommits gh st owner repo (number pr) = (st', Inr pcs)"
  shows "pull_requests_loop gh st [] [pr] = (st', Inr pcs)"
  using assms by simp

lemma analyzeUserCommits_all_stages:
  assumes "validateUser gh st (searchUser (config st)) = (st0, Inr login)"
    and "ignoreDateRange (config st0)"
    and "searchUserRepositoryCommits gh st0 (searchUser (config st0)) None = Some (st1, Inr ds)"
    and "\<not> cancelled st1" and "\<not> checkTotalRecordsLimit st1"
    and "searchPullRequestsWithPartitioning gh st1 (searchUser (config st1)) None
           = Some (st2, Inr prs)"
    and "prs \<noteq> []" and "\<not> cancelled st2" and "\<not> checkTotalRecordsLimit st2"
    and "pull_requests_loop gh st2 [] prs = (st3, Inr pcs)"
  shows "analyzeUserCommits gh st = Some (store_commits st3 (reconcile ds pcs), Inr ())"
  using assms by (simp add: analyzeUserCommits_def)

lemma example_run:
  "\<exists>st'. analyzeUserCommits example_github (initial_engine example_config) = Some (st', Inr ())
     \<and> length (commits st') = 73 \<and> totalFetched st' = 12"
proof -
  let ?gh = example_github
  let ?cfg = example_config
  let ?st0 = "initial_engine ?cfg"
  let ?pr = "pr_item 1 1 ''https://api.github.com/repos/o/r''"
  let ?repo = "\<lparr>name = ''r'', owner_login = ''o'', full_name = ''o/r''\<rparr>"
  have cfg: "totalRecords ?cfg = 50" "ignoreDateRange ?cfg" "org ?cfg = None"
    "repo_filter ?cfg = None" "searchUser ?cfg = ''u''"
    by (simp_all add: example_config_def)
  \<comment> \<open>user validation\<close>
  obtain sV where v: "validateUser ?gh ?st0 ''u'' = (sV, Inr ''u'')"
    and sV: "config sV = ?cfg" "totalFetched sV = 0" "\<not> cancelled sV"
    by (simp add: validateUser_def makeRequest_def example_github_def initial_engine_def)
  have limV: "\<not> checkTotalRecordsLimit sV" "getRemainingRecords sV = 50"
    using sV cfg by (simp_all add: checkTotalRecordsLimit_def getRemainingRecords_def)
  \<comment> \<open>one repository\<close>
  have "list_repos ?gh ''u'' 1 (min 100 (getRemainingRecords sV)) = Response 200 [?repo]"
    by (simp add: example_github_def)
  from getUserRepositories_short_page[OF sV(3) limV(1) this]
  obtain sR where r: "getUserRepositories ?gh sV ''u'' = Some (sR, Inr [?repo])"
    and sR: "config sR = ?cfg" "\<not> cancelled sR" "totalFetched sR = 1"
    using sV by auto
  have limR: "\<not> checkTotalRecordsLimit sR"
    using sR cfg by (simp add: checkTotalRecordsLimit_def)
  \<comment> \<open>ten direct commits\<close>
  have "list_commits ?gh ''o'' ''r'' ''u'' 1 (min 100 (getRemainingRecords sR))
      (if (None::partition option) \<noteq> None \<and> \<not> ignoreDateRange (config sR) then None else None)
      = Response 200 (listed (CHR ''d'') 10)"
    by (simp add: example_github_def)
  from getRepositoryCommits_short_page[OF sR(2) limR this]
  obtain sC dcs where c: "getRepositoryCommits ?gh sR ''o'' ''r'' ''u'' None = Some (sC, Inr dcs)"
    and dcs: "map sha dcs = map api_sha (listed (CHR ''d'') 10)"
    and sC: "config sC = ?cfg" "\<not> cancelled sC" "totalFetched sC = 11"
    using sR by auto
  have limC: "\<not> checkTotalRecordsLimit sC" "getRemainingRecords sC = 39"
    using sC cfg by (simp_all add: checkTotalRecordsLimit_def getRemainingRecords_def)
  have sel: "filter (repo_selected (config sR)) [?repo] = [?repo]"
    using sR cfg by (simp add: repo_selected_def truthy_def)
  have walk: "searchUserRepositoryCommits ?gh sV ''u'' None = Some (sC, Inr dcs)"
    using r sel c sR(2) limR limC(1) by (simp add: searchUserRepositoryCommits_def)
  \<comment> \<open>the two searches\<close>
  have qa: "search_query_text (config sC) ''author:u'' = ''author:u is:pr''"
    using sC cfg by (simp add: search_query_text_def truthy_def)
  have "search_issues ?gh \<lparr>q_text = ''author:u is:pr'', created = None\<rparr> 1
      (min 100 (getRemainingRecords sC)) = Response 200 [?pr]"
    by (simp add: example_github_def)
  from searchPullRequestsForQuery_short_page[OF sC(2) limC(1) this]
  obtain sA where a: "searchPullRequestsForQuery ?gh sC \<lparr>q_text = ''author:u is:pr'', created = None\<rparr>
      = Some (sA, Inr [?pr])"
    and sA: "config sA = ?cfg" "\<not> cancelled sA" "totalFetched sA = 11"
    using sC by (auto simp: same_control_def)
  have limA: "\<not> checkTotalRecordsLimit sA"
    using sA cfg by (simp add: checkTotalRecordsLimit_def)
  have author: "searchPullRequestsForUser ?gh sC ''author:u'' None = Some (sA, Inr [?pr])"
    using a qa by (simp add: searchPullRequestsForUser_def)
  have qu: "search_query_text (config sA) ''user:u'' = ''user:u is:pr''"
    using sA cfg by (simp add: search_query_text_def truthy_def)
  have "search_issues ?gh \<lparr>q_text = ''user:u is:pr'', created = None\<rparr> 1
      (min 100 (getRemainingRecords sA)) = Response 200 []"
    by (simp add: example_github_def)
  from searchPullRequestsForQuery_short_page[OF sA(2) limA this]
  obtain sU where u: "searchPullRequestsForQuery ?gh sA \<lparr>q_text = ''user:u is:pr'', created = None\<rparr>
      = Some (sU, Inr [])"
    and sU: "config sU = ?cfg" "\<not> cancelled sU" "totalFetched sU = 11"
    using sA by (auto simp: same_control_def)
  have user: "searchPullRequestsForUser ?gh sA ''user:u'' None = Some (sU, Inr [])"
    using u qu by (simp add: searchPullRequestsForUser_def)
  have mg: "merge_searches [?pr] [] = [?pr]"
    by (simp add: merge_searches_def uniquePRs_def same_pr_def)
  let ?sP = "sU\<lparr>totalFetched := totalFetched sU + int (length [?pr])\<rparr>"
  have search: "searchPullRequestsWithPartitioning ?gh sC ''u'' None = Some (?sP, Inr [?pr])"
    using author user mg sU cfg
    by (simp add: searchPullRequestsWithPartitioning_def getRemainingRecords_def)
  have sP: "config ?sP = ?cfg" "\<not> cancelled ?sP" "totalFetched ?sP = 12"
    using sU by simp_all
  have limP: "\<not> checkTotalRecordsLimit ?sP"
    using sP cfg by (simp add: checkTotalRecordsLimit_def)
  \<comment> \<open>the commits of the pull request\<close>
  have "list_pull_commits ?gh ''o'' ''r'' 1 = Response 200 (listed (CHR ''p'') 63)"
    by (simp add: example_github_def)
  from getPullRequestCommits_listed[OF this, of ?sP]
  obtain sG pcs where g: "getPullRequestCommits ?gh ?sP ''o'' ''r'' 1 = (sG, Inr pcs)"
    and pcs: "map sha pcs = map api_sha (listed (CHR ''p'') 63)"
    and sG: "totalFetched sG = 12"
    using sP by (auto simp: same_control_def)
  have loop: "pull_requests_loop ?gh ?sP [] [?pr] = (sG, Inr pcs)"
  proof (rule pull_requests_loop_single[OF sP(2) limP])
    show "owner_and_repo (repository_url ?pr) = (''o'', ''r'')"
      using example_owner_and_repo by (simp add: pr_item_def)
    show "getPullRequestCommits ?gh ?sP ''o'' ''r'' (number ?pr) = (sG, Inr pcs)"
      using g by (simp add: pr_item_def)
  qed
  \<comment> \<open>reconciliation\<close>
  have dis: "sha ` set dcs \<inter> sha ` set pcs = {}"
    unfolding set_map[symmetric] dcs pcs by (rule listed_disjoint) simp
  have dst: "distinct (map sha pcs)" unfolding pcs by (rule listed_distinct)
  have "length (map sha dcs) = 10" "length (map sha pcs) = 63"
    unfolding dcs pcs by simp_all
  then have "length dcs = 10" "length pcs = 63" by simp_all
  then have len: "length (reconcile dcs pcs) = 73"
    using reconcile_disjoint[OF dst dis] by simp
  have st0: "searchUser (config ?st0) = ''u''"
    by (simp add: initial_engine_def example_config_def)
  have run: "analyzeUserCommits ?gh ?st0 =
      Some (store_commits sG (reconcile dcs pcs), Inr ())"
  proof (rule analyzeUserCommits_all_stages)
    show "validateUser ?gh ?st0 (searchUser (config ?st0)) = (sV, Inr ''u'')"
      using v st0 by simp
    show "ignoreDateRange (config sV)" using sV cfg by simp
    show "searchUserRepositoryCommits ?gh sV (searchUser (config sV)) None = Some (sC, Inr dcs)"
      using walk sV cfg by simp
    show "\<not> cancelled sC" by (rule sC(2))
    show "\<not> checkTotalRecordsLimit sC" by (rule limC(1))
    show "searchPullRequestsWithPartitioning ?gh sC (searchUser (config sC)) None
        = Some (?sP, Inr [?pr])"
      using search sC cfg by simp
    show "[?pr] \<noteq> []" by simp
    show "\<not> cancelled ?sP" by (rule sP(2))
    show "\<not> checkTotalRecordsLimit ?sP" by (rule limP)
    show "pull_requests_loop ?gh ?sP [] [?pr] = (sG, Inr pcs)" by (rule loop)
  qed
  show ?thesis
    using run len sG by (simp add: store_commits_def)
qed

text \<open>
  Claim C8. When the commit listing of a repository is rejected with status 409 or 404,
  at any page and with any commits gathered so far, \<^verbatim>\<open>getRepositoryCommits\<close>
  returns the gathered commits (none on the first page); the call is logged, nothing is
  added to the errors and nothing is thrown.
\<close>

theorem getRepositoryCommits_skips_409_404:
  assumes "\<not> cancelled st" and "\<not> checkTotalRecordsLimit st"
    and "list_commits gh owner repo author_name page (min 100 (getRemainingRecords st))
           (if dateRange \<noteq> None \<and> \<not> ignoreDateRange (config st) then dateRange else None)
         = Rejected e"
    and "err_status e = Some 409 \<or> err_status e = Some 404"
  shows "getRepositoryCommits_loop gh owner repo author_name dateRange st commits_acc page
     = Some (st\<lparr>apiCalls := apiCalls st @
           [\<lparr>call_url = GET_repo_commits owner repo, call_status = status_or_ERROR e,
             call_error = Some (err_message e)\<rparr>]\<rparr>, Inr commits_acc)"
  using assms
  by (subst getRepositoryCommits_loop.simps) (auto simp: makeRequest_def Let_def)

theorem getRepositoryCommits_skips_409_404_witness:
  "getRepositoryCommits (failing_github empty_repository_error) (initial_engine example_config)
      ''o'' ''empty'' ''u'' None
     = Some ((initial_engine example_config)\<lparr>apiCalls :=
           [\<lparr>call_url = GET_repo_commits ''o'' ''empty'', call_status = Some 409,
             call_error = Some ''Git Repository is empty.''\<rparr>]\<rparr>, Inr [])
   \<and> errors (initial_engine example_config) = []"
  using getRepositoryCommits_skips_409_404[of "initial_engine example_config"
      "failing_github empty_repository_error" "''o''" "''empty''" "''u''" 1 None
      empty_repository_error "[]"]
  by (simp add: getRepositoryCommits_def failing_github_def empty_repository_error_def
      initial_engine_def example_config_def checkTotalRecordsLimit_def status_or_ERROR_def)



text \<open>
  Claim C3. With a budget of 50 records the stored collection is to have at most 50
  entries. In the run below the budget counts one repository, ten direct commits and one
  pull request (12 records); the 63 commits of the pull request are fetched without being
  counted, and the collection stored has 73 entries.
\<close>

theorem budget_exceeded_by_pull_request_commits:
  "final_collection_size example_github example_config = Some 73
   \<and> totalRecords example_config = 50"
proof -
  obtain st' where "analyzeUserCommits example_github (initial_engine example_config)
      = Some (st', Inr ())" and "length (commits st') = 73"
    using example_run by blast
  then show ?thesis
    by (simp add: final_collection_size_def example_config_def)
qed

text \<open>
  Claim C9. In the collection that a completed run stores, the type of every commit is
  "pull\_request" exactly when its pull request is set.
\<close>

theorem final_collection_type_matches_pullRequest:
  assumes "analyzeUserCommits gh st = Some (st', Inr ())"
  shows "list_all type_matches_pullRequest (commits st')"
proof -
  obtain st0 v where v: "validateUser gh st (searchUser (config st)) = (st0, v)"
    by (cases "validateUser gh st (searchUser (config st))")
  define dateRange where "dateRange =
     (if \<not> ignoreDateRange (config st0) \<and> config_start (config st0) \<noteq> None
           \<and> config_end (config st0) \<noteq> None
      then Some \<lparr>start = the (config_start (config st0)), end' = the (config_end (config st0))\<rparr>
      else None)"
  show ?thesis
  proof (cases v)
    case (Inl e)
    then show ?thesis using assms v by (simp add: analyzeUserCommits_def)
  next
    case validated: (Inr login)
    show ?thesis
    proof (cases "searchUserRepositoryCommits gh st0 (searchUser (config st0)) dateRange")
      case None
      then show ?thesis
        using assms v validated by (simp add: analyzeUserCommits_def dateRange_def Let_def)
    next
      case (Some res)
      obtain st1 x where res: "res = (st1, x)" by (cases res)
      show ?thesis
      proof (cases x)
        case (Inl e)
        then show ?thesis
          using assms v validated Some res by (simp add: analyzeUserCommits_def dateRange_def Let_def)
      next
        case (Inr directCommits)
        have d: "list_all direct_form directCommits"
          using searchUserRepositoryCommits_direct Some res Inr by blast
        then have dm: "list_all type_matches_pullRequest directCommits"
          using direct_form_matches by (auto simp: list_all_iff)
        show ?thesis
        proof (cases "\<not> cancelled st1 \<and> \<not> checkTotalRecordsLimit st1")
          case False
          then have "st' = store_commits st1 directCommits"
            using assms v validated Some res Inr
            by (auto simp: analyzeUserCommits_def dateRange_def Let_def)
          then show ?thesis using store_commits_matches[OF dm] by simp
        next
          case go: True
          show ?thesis
          proof (cases "searchPullRequestsWithPartitioning gh st1 (searchUser (config st1)) dateRange")
            case None
            then show ?thesis
              using assms v validated Some res Inr go
              by (simp add: analyzeUserCommits_def dateRange_def Let_def)
          next
            case (Some res2)
            obtain st2 x2 where res2: "res2 = (st2, x2)" by (cases res2)
            show ?thesis
            proof (cases x2)
              case (Inl e)
              then show ?thesis
                using assms v validated \<open>searchUserRepositoryCommits gh st0 (searchUser (config st0)) dateRange = Some res\<close>
                  res Inr go Some res2
                by (simp add: analyzeUserCommits_def dateRange_def Let_def)
            next
              case prs: (Inr pullRequests)
              show ?thesis
              proof (cases "length pullRequests > 0 \<and> \<not> cancelled st2 \<and> \<not> checkTotalRecordsLimit st2")
                case False
                then have "st' = store_commits st2 directCommits"
                  using assms v validated \<open>searchUserRepositoryCommits gh st0 (searchUser (config st0)) dateRange = Some res\<close>
                    res Inr go Some res2 prs
                  by (auto simp: analyzeUserCommits_def dateRange_def Let_def)
                then show ?thesis using store_commits_matches[OF dm] by simp
              next
                case True
                obtain st3 x3 where l: "pull_requests_loop gh st2 [] pullRequests = (st3, x3)"
                  by (cases "pull_requests_loop gh st2 [] pullRequests")
                show ?thesis
                proof (cases x3)
                  case (Inl e)
                  then show ?thesis
                    using assms v validated \<open>searchUserRepositoryCommits gh st0 (searchUser (config st0)) dateRange = Some res\<close>
                      res Inr go Some res2 prs True l
                    by (simp add: analyzeUserCommits_def dateRange_def Let_def)
                next
                  case pc: (Inr prCommits)
                  have p: "list_all pull_request_form prCommits"
                    using pull_requests_loop_form[of gh st2 "[]" pullRequests st3 prCommits] l pc by simp
                  have "st' = store_commits st3 (reconcile directCommits prCommits)"
                    using assms v validated \<open>searchUserRepositoryCommits gh st0 (searchUser (config st0)) dateRange = Some res\<close>
                      res Inr go Some res2 prs True l pc
                    by (simp add: analyzeUserCommits_def dateRange_def Let_def)
                  then show ?thesis
                    using store_commits_matches[OF reconcile_matches[OF d p]] by simp
                qed
              qed
            qed
          qed
        qed
      qed
    qed
  qed
qed

theorem final_collection_type_matches_pullRequest_witness:
  "\<exists>st'. analyzeUserCommits example_github (initial_engine example_config) = Some (st', Inr ())
     \<and> length (commits st') = 73 \<and> list_all type_matches_pullRequest (commits st')"
proof -
  obtain st' where r: "analyzeUserCommits example_github (initial_engine example_config)
      = Some (st', Inr ())" and l: "length (commits st') = 73"
    using example_run by blast
  from final_collection_type_matches_pullRequest[OF r] r l show ?thesis by blast
qed

section \<open>Properties of the request executor\<close>

lemma request_attempts_bound: "retries \<le> maxRetries \<Longrightarrow>
  snd (snd (request_attempts octokit_request now retries slept)) \<le> maxRetries"
proof (induction octokit_request now retries slept rule: request_attempts.induct)
  case (1 octokit_request now retries slept)
  show ?case
  proof (cases "retries < maxRetries")
    case False
    then show ?thesis using "1.prems" by (subst request_attempts.simps) simp
  next
    case True
    show ?thesis
    proof (cases "octokit_request retries")
      case (Resolved d)
      then show ?thesis using True by (subst request_attempts.simps) simp
    next
      case (Failed e)
      show ?thesis
      proof (cases "rate_limited e")
        case rl: True
        then show ?thesis
          using True Failed "1.IH"(1)[OF True Failed rl refl refl]
          by (subst request_attempts.simps) (simp add: Let_def)
      next
        case nrl: False
        show ?thesis
        proof (cases "status_at_least_400 e \<and> retries < maxRetries - 1")
          case b: True
          then show ?thesis
            using True Failed nrl "1.IH"(2)[OF True Failed nrl b]
            by (subst request_attempts.simps) simp
        next
          case False
          then show ?thesis
            using True Failed nrl by (subst request_attempts.simps) auto
        qed
      qed
    qed
  qed
qed

text \<open>
  Claim C6 (as amended). A try that fails with status 403 and a remaining quota of "0"
  is followed, after sleeping until the reset plus one second, by the next try, as long
  as fewer than three tries were made. A try that fails with another status of 400 or
  more is followed by the next try after \<open>2 ^ retries\<close> seconds (1, then 2); the third such
  failure is thrown, so there are at most three tries. An error with no status of 400 or
  more is thrown at once, as it is. \<^verbatim>\<open>AllUserCommit.makeRequest\<close> does not retry: it
  throws the error of a rejected request as it is.
\<close>

theorem request_executor_retries:
  "(retries < 3 \<and> octokit_request retries = Failed e \<and> rate_limited e \<longrightarrow>
      request_attempts octokit_request now retries slept =
      request_attempts octokit_request now (retries + 1)
        (slept @ [ceil_seconds (max (ratelimit_reset e * 1000 - now retries) 0 + 1000)]))
   \<and> (retries < 2 \<and> octokit_request retries = Failed e \<and> \<not> rate_limited e
        \<and> status_at_least_400 e \<longrightarrow>
      request_attempts octokit_request now retries slept =
      request_attempts octokit_request now (retries + 1) (slept @ [2 ^ retries]))
   \<and> (octokit_request 0 = Failed e0 \<and> \<not> rate_limited e0 \<and> status_at_least_400 e0
        \<and> octokit_request 1 = Failed e1 \<and> \<not> rate_limited e1 \<and> status_at_least_400 e1
        \<and> octokit_request 2 = Failed e2 \<and> \<not> rate_limited e2 \<longrightarrow>
      request_attempts octokit_request now 0 slept = (Thrown e2, slept @ [1, 2], 3))
   \<and> (retries < 3 \<and> octokit_request retries = Failed e \<and> \<not> rate_limited e
        \<and> \<not> status_at_least_400 e \<longrightarrow>
      request_attempts octokit_request now retries slept = (Thrown e, slept, retries + 1))
   \<and> snd (snd (request_attempts octokit_request now 0 slept)) \<le> 3
   \<and> snd (makeRequest st endpoint_called (Rejected err)) = Inl err"
proof (intro conjI impI)
  assume "retries < 3 \<and> octokit_request retries = Failed e \<and> rate_limited e"
  then show "request_attempts octokit_request now retries slept =
      request_attempts octokit_request now (retries + 1)
        (slept @ [ceil_seconds (max (ratelimit_reset e * 1000 - now retries) 0 + 1000)])"
    by (subst request_attempts.simps) (simp add: maxRetries_def Let_def)
next
  assume "retries < 2 \<and> octokit_request retries = Failed e \<and> \<not> rate_limited e
        \<and> status_at_least_400 e"
  then show "request_attempts octokit_request now retries slept =
      request_attempts octokit_request now (retries + 1) (slept @ [2 ^ retries])"
    by (subst request_attempts.simps) (simp add: maxRetries_def)
next
  assume a: "octokit_request 0 = Failed e0 \<and> \<not> rate_limited e0 \<and> status_at_least_400 e0
        \<and> octokit_request 1 = Failed e1 \<and> \<not> rate_limited e1 \<and> status_at_least_400 e1
        \<and> octokit_request 2 = Failed e2 \<and> \<not> rate_limited e2"
  have "request_attempts octokit_request now 2 (slept @ [1, 2]) = (Thrown e2, slept @ [1, 2], 3)"
    using a by (subst request_attempts.simps) (simp add: maxRetries_def)
  moreover have "request_attempts octokit_request now 1 (slept @ [1])
      = request_attempts octokit_request now 2 (slept @ [1, 2])"
    using a by (subst request_attempts.simps) (simp add: maxRetries_def numeral_2_eq_2)
  moreover have "request_attempts octokit_request now 0 slept
      = request_attempts octokit_request now 1 (slept @ [1])"
    using a by (subst request_attempts.simps) (simp add: maxRetries_def)
  ultimately show "request_attempts octokit_request now 0 slept = (Thrown e2, slept @ [1, 2], 3)"
    by simp
next
  assume "retries < 3 \<and> octokit_request retries = Failed e \<and> \<not> rate_limited e
        \<and> \<not> status_at_least_400 e"
  then show "request_attempts octokit_request now retries slept = (Thrown e, slept, retries + 1)"
    by (subst request_attempts.simps) (simp add: maxRetries_def)
next
  show "snd (snd (request_attempts octokit_request now 0 slept)) \<le> 3"
    using request_attempts_bound[of 0 octokit_request now slept] by (simp add: maxRetries_def)
next
  show "snd (makeRequest st endpoint_called (Rejected err)) = Inl err"
    by (simp add: makeRequest_def)
qed

theorem request_executor_retries_witness:
  "request_attempts (\<lambda>i. Failed (server_error 502) :: string attempt) (\<lambda>i. 0) 0 [] =
     (Thrown (server_error 502), [1, 2], 3)
   \<and> request_attempts (\<lambda>i. Failed \<lparr>http_status = None, ratelimit_remaining = None,
          ratelimit_reset = 0, error_text = ''socket hang up''\<rparr> :: string attempt) (\<lambda>i. 0) 0 [] =
     (Thrown \<lparr>http_status = None, ratelimit_remaining = None,
          ratelimit_reset = 0, error_text = ''socket hang up''\<rparr>, [], 1)
   \<and> request_attempts (\<lambda>i. if i = 0 then Failed (quota_error 60) else Resolved ''data'')
        (\<lambda>i. 0) 0 [] =
      request_attempts (\<lambda>i. if i = 0 then Failed (quota_error 60) else Resolved ''data'')
        (\<lambda>i. 0) 1 [61]
   \<and> request_attempts (\<lambda>i. if i = 0 then Failed (server_error 502) else Resolved ''data'')
        (\<lambda>i. 0) 0 [] =
      request_attempts (\<lambda>i. if i = 0 then Failed (server_error 502) else Resolved ''data'')
        (\<lambda>i. 0) 1 [1]"
proof (intro conjI)
  let ?hang = "\<lparr>http_status = None, ratelimit_remaining = None,
          ratelimit_reset = 0, error_text = ''socket hang up''\<rparr>"
  show "request_attempts (\<lambda>i. Failed (server_error 502) :: string attempt) (\<lambda>i. 0) 0 [] =
     (Thrown (server_error 502), [1, 2], 3)"
    using request_executor_retries[where octokit_request = "\<lambda>i. Failed (server_error 502) :: string attempt"
        and now = "\<lambda>i. 0" and slept = "[]" and ?e0.0 = "server_error 502"
        and ?e1.0 = "server_error 502" and ?e2.0 = "server_error 502",
        THEN conjunct2, THEN conjunct2, THEN conjunct1]
    by (simp add: rate_limited_def status_at_least_400_def server_error_def)
  show "request_attempts (\<lambda>i. Failed ?hang :: string attempt) (\<lambda>i. 0) 0 [] = (Thrown ?hang, [], 1)"
    using request_executor_retries[where octokit_request = "\<lambda>i. Failed ?hang :: string attempt"
        and now = "\<lambda>i. 0" and slept = "[]" and retries = 0 and e = ?hang,
        THEN conjunct2, THEN conjunct2, THEN conjunct2, THEN conjunct1]
    by (simp add: rate_limited_def status_at_least_400_def)
  show "request_attempts (\<lambda>i. if i = 0 then Failed (quota_error 60) else Resolved ''data'')
        (\<lambda>i. 0) 0 [] =
      request_attempts (\<lambda>i. if i = 0 then Failed (quota_error 60) else Resolved ''data'')
        (\<lambda>i. 0) 1 [61]"
    using request_executor_retries[where octokit_request =
          "\<lambda>i. if i = 0 then Failed (quota_error 60) else Resolved ''data''"
        and now = "\<lambda>i. 0" and slept = "[]" and retries = 0 and e = "quota_error 60",
        THEN conjunct1]
    by (simp add: rate_limited_def quota_error_def ceil_seconds_def)
  show "request_attempts (\<lambda>i. if i = 0 then Failed (server_error 502) else Resolved ''data'')
        (\<lambda>i. 0) 0 [] =
      request_attempts (\<lambda>i. if i = 0 then Failed (server_error 502) else Resolved ''data'')
        (\<lambda>i. 0) 1 [1]"
    using request_executor_retries[where octokit_request =
          "\<lambda>i. if i = 0 then Failed (server_error 502) else Resolved ''data''"
        and now = "\<lambda>i. 0" and slept = "[]" and retries = 0 and e = "server_error 502",
        THEN conjunct2, THEN conjunct1]
    by (simp add: rate_limited_def status_at_least_400_def server_error_def)
qed

text \<open>
  The retry after a rate-limit failure is not limited to one: two rate-limited tries are
  followed by a third.
\<close>

theorem request_executor_retries_twice_counterexample:
  "request_attempts (\<lambda>i. if i < 2 then Failed (quota_error 60) else Resolved ''data'')
     (\<lambda>i. 0) 0 [] = (Returned ''data'', [61, 61], 3)"
proof -
  let ?oc = "\<lambda>i::nat. if i < 2 then Failed (quota_error 60) else Resolved ''data''"
  have r: "rate_limited (quota_error 60)" by (simp add: rate_limited_def quota_error_def)
  have "request_attempts ?oc (\<lambda>i. 0) 2 [61, 61] = (Returned ''data'', [61, 61], 3)"
    by (subst request_attempts.simps) (simp add: maxRetries_def)
  moreover have "request_attempts ?oc (\<lambda>i. 0) 1 [61] = request_attempts ?oc (\<lambda>i. 0) 2 [61, 61]"
    using r by (subst request_attempts.simps)
      (simp add: maxRetries_def quota_error_def ceil_seconds_def numeral_2_eq_2)
  moreover have "request_attempts ?oc (\<lambda>i. 0) 0 [] = request_attempts ?oc (\<lambda>i. 0) 1 [61]"
    using r by (subst request_attempts.simps)
      (simp add: maxRetries_def quota_error_def ceil_seconds_def)
  ultimately show ?thesis by simp
qed

end
